theory Spec2Isabelle
  imports Main "HOL-Library.Sublist"
begin

section \<open>Python strings\<close>

text \<open>
  The scraper works on Python \<open>str\<close> values. They are modelled as \<open>string\<close>, so a
  character is a code point below 256. In that range the characters that
  \<open>str.strip()\<close> removes (those for which \<open>str.isspace\<close> holds) are the code points
  9 to 13, 28 to 32, 133 and 160, and the only characters matched by the regular
  expression class \<open>\d\<close> are the ten ASCII digits, code points 48 to 57.
\<close>

definition cp :: "char \<Rightarrow> nat" where
  "cp c = of_char c"

definition isspace :: "char \<Rightarrow> bool" where
  "isspace c = ((9 \<le> cp c \<and> cp c \<le> 13) \<or> (28 \<le> cp c \<and> cp c \<le> 32) \<or> cp c = 133 \<or> cp c = 160)"

text \<open>\<open>s.strip()\<close>: leading and trailing whitespace removed.\<close>

definition strip :: "string \<Rightarrow> string" where
  "strip s = rev (dropWhile isspace (rev (dropWhile isspace s)))"

text \<open>\<open>sub in s\<close>: \<open>sub\<close> occurs as a contiguous run of characters of \<open>s\<close>.\<close>

fun contains :: "string \<Rightarrow> string \<Rightarrow> bool" where
  "contains sub [] = (sub = [])"
| "contains sub (c # cs) = (prefix sub (c # cs) \<or> contains sub cs)"

text \<open>
  \<open>s.split(sep)\<close> with an explicit separator: the string is cut at every
  occurrence of \<open>sep\<close>, found from left to right without overlap; empty pieces are
  kept, and a string without the separator is returned whole. \<open>find_sep\<close> is the
  search for the leftmost occurrence; it returns the text before it and the
  text after it. Python raises \<open>ValueError\<close> for an empty separator; both calls
  of the scraper pass a non-empty literal, and the model returns the string
  uncut there.
\<close>

fun find_sep :: "string \<Rightarrow> string \<Rightarrow> (string \<times> string) option" where
  "find_sep sep [] = None"
| "find_sep sep (c # cs) =
     (if prefix sep (c # cs) then Some ([], drop (length sep) (c # cs))
      else (case find_sep sep cs of
              None \<Rightarrow> None
            | Some (a, b) \<Rightarrow> Some (c # a, b)))"

lemma find_sep_decomp: "find_sep sep s = Some (a, b) \<Longrightarrow> s = a @ sep @ b"
proof (induction s arbitrary: a b)
  case Nil
  then show ?case by simp
next
  case (Cons c cs)
  show ?case
  proof (cases "prefix sep (c # cs)")
    case True
    with Cons.prems have ab: "a = []" "b = drop (length sep) (c # cs)" by simp_all
    from True obtain zs where "c # cs = sep @ zs" by (auto elim: prefixE)
    with ab show ?thesis by simp
  next
    case False
    with Cons.prems obtain a' where "find_sep sep cs = Some (a', b)" and "a = c # a'"
      by (auto split: option.splits)
    with Cons.IH show ?thesis by simp
  qed
qed

lemma find_sep_shorter:
  "find_sep sep s = Some (a, b) \<Longrightarrow> sep \<noteq> [] \<Longrightarrow> length b < length s"
  by (drule find_sep_decomp) (cases sep, simp_all)

function split_py :: "string \<Rightarrow> string \<Rightarrow> string list" where
  "split_py sep s =
     (if sep = [] then [s]
      else (case find_sep sep s of
              None \<Rightarrow> [s]
            | Some (a, b) \<Rightarrow> a # split_py sep b))"
  by pat_completeness auto
termination
  by (relation "measure (\<lambda>(sep, s). length s)") (auto dest: find_sep_shorter)

declare split_py.simps [simp del]

section \<open>Dates: \<open>datetime.strptime\<close> and \<open>strftime\<close>\<close>

datatype py_exception =
    ValueError
  | IndexError
  | TypeError
  | AttributeError
  | UnboundLocalError
  | NoSuchElementException
  | TimeoutException
  | WebDriverException
  | RequestException

text \<open>
  \<open>datetime.strptime(s, "%d.%m.%Y")\<close> compiles the format to the regular expression
  \<^verbatim>\<open>(?P<d>3[0-1]|[1-2]\d|0[1-9]|[1-9]| [1-9])\.(?P<m>1[0-2]|0[1-9]|[1-9])\.(?P<Y>\d\d\d\d)\<close>
  and matches it at the start of \<open>s\<close>. A regular-expression part is modelled by
  the list of the ways it can match a prefix of its input, in the order in which
  the backtracking matcher tries them; each entry is the matched text and the
  rest of the input. The match of the whole expression is the first entry of
  the composed list.
\<close>

type_synonym matcher = "string \<Rightarrow> (string \<times> string) list"

definition in_range :: "char \<Rightarrow> char \<Rightarrow> char \<Rightarrow> bool" where
  "in_range lo hi c = (cp lo \<le> cp c \<and> cp c \<le> cp hi)"

definition is_digit :: "char \<Rightarrow> bool" where
  "is_digit c = in_range (CHR ''0'') (CHR ''9'') c"

text \<open>One character followed by a character of a class: \<open>3[0-1]\<close>, \<open>[1-2]\d\<close>, ...\<close>

definition two_chars :: "(char \<Rightarrow> bool) \<Rightarrow> (char \<Rightarrow> bool) \<Rightarrow> matcher" where
  "two_chars p q s =
     (case s of
        c1 # c2 # rest \<Rightarrow> (if p c1 \<and> q c2 then [([c1, c2], rest)] else [])
      | _ \<Rightarrow> [])"

definition one_char :: "(char \<Rightarrow> bool) \<Rightarrow> matcher" where
  "one_char p s = (case s of c # rest \<Rightarrow> (if p c then [([c], rest)] else []) | _ \<Rightarrow> [])"

definition re_d :: matcher where
  "re_d s =
     two_chars (\<lambda>c. c = CHR ''3'') (in_range (CHR ''0'') (CHR ''1'')) s
     @ two_chars (in_range (CHR ''1'') (CHR ''2'')) is_digit s
     @ two_chars (\<lambda>c. c = CHR ''0'') (in_range (CHR ''1'') (CHR ''9'')) s
     @ one_char (in_range (CHR ''1'') (CHR ''9'')) s
     @ two_chars (\<lambda>c. c = CHR '' '') (in_range (CHR ''1'') (CHR ''9'')) s"

definition re_m :: matcher where
  "re_m s =
     two_chars (\<lambda>c. c = CHR ''1'') (in_range (CHR ''0'') (CHR ''2'')) s
     @ two_chars (\<lambda>c. c = CHR ''0'') (in_range (CHR ''1'') (CHR ''9'')) s
     @ one_char (in_range (CHR ''1'') (CHR ''9'')) s"

definition re_Y :: matcher where
  "re_Y s =
     (case s of
        c1 # c2 # c3 # c4 # rest \<Rightarrow>
          (if is_digit c1 \<and> is_digit c2 \<and> is_digit c3 \<and> is_digit c4
           then [([c1, c2, c3, c4], rest)] else [])
      | _ \<Rightarrow> [])"

definition re_dot :: matcher where
  "re_dot s = one_char (\<lambda>c. c = CHR ''.'') s"

text \<open>
  The three groups of a match and the unmatched rest of the input, for every
  way the whole expression matches, in the matcher's order.
\<close>

definition format_regex :: "string \<Rightarrow> ((string \<times> string \<times> string) \<times> string) list" where
  "format_regex s =
     concat (map (\<lambda>(d, r1).
       concat (map (\<lambda>(_, r2).
         concat (map (\<lambda>(m, r3).
           concat (map (\<lambda>(_, r4).
             map (\<lambda>(y, r5). ((d, m, y), r5)) (re_Y r4))
           (re_dot r3)))
         (re_m r2)))
       (re_dot r1)))
     (re_d s))"

text \<open>
  \<open>int(g)\<close> for a captured group \<open>g\<close>. The groups hold decimal digits, after one
  space in the last alternative of the day; \<open>int\<close> ignores surrounding
  whitespace and cannot fail on them.
\<close>

definition digits_value :: "string \<Rightarrow> nat" where
  "digits_value s = foldl (\<lambda>a c. 10 * a + (cp c - 48)) 0 s"

definition int_of_group :: "string \<Rightarrow> nat" where
  "int_of_group g = digits_value (strip g)"

text \<open>The calendar of \<open>datetime.date\<close>: years 1 to 9999, proleptic Gregorian.\<close>

definition is_leap :: "nat \<Rightarrow> bool" where
  "is_leap y = (y mod 4 = 0 \<and> (y mod 100 \<noteq> 0 \<or> y mod 400 = 0))"

definition days_in_month :: "nat \<Rightarrow> nat \<Rightarrow> nat" where
  "days_in_month y m =
     (if m = 2 then (if is_leap y then 29 else 28)
      else if m = 4 \<or> m = 6 \<or> m = 9 \<or> m = 11 then 30
      else 31)"

record date =
  year :: nat
  month :: nat
  day :: nat

definition datetime_date :: "nat \<Rightarrow> nat \<Rightarrow> nat \<Rightarrow> py_exception + date" where
  "datetime_date y m d =
     (if 1 \<le> y \<and> y \<le> 9999 \<and> 1 \<le> m \<and> m \<le> 12 \<and> 1 \<le> d \<and> d \<le> days_in_month y m
      then Inr \<lparr>year = y, month = m, day = d\<rparr>
      else Inl ValueError)"

text \<open>
  \<open>strptime\<close>: no match, or text left after the match (``unconverted data
  remains''), or numbers that are no calendar date raise \<open>ValueError\<close>.
\<close>

definition strptime :: "string \<Rightarrow> py_exception + date" where
  "strptime s =
     (case format_regex s of
        [] \<Rightarrow> Inl ValueError
      | ((d, m, y), rest) # _ \<Rightarrow>
          (if rest \<noteq> [] then Inl ValueError
           else datetime_date (int_of_group y) (int_of_group m) (int_of_group d)))"

text \<open>
  \<open>strftime("%Y-%m-%d")\<close>: CPython hands the format to the \<open>strftime\<close> of the C
  library, which on Linux prints the year in decimal without padding (999 for
  the year 999, 1 for the year 1) and the month and the day as two digits,
  padded with zeros.
\<close>

definition digit_char :: "nat \<Rightarrow> char" where
  "digit_char n = char_of (48 + n mod 10)"

definition pad2 :: "nat \<Rightarrow> string" where
  "pad2 n = [digit_char (n div 10), digit_char n]"

definition pad4 :: "nat \<Rightarrow> string" where
  "pad4 n = pad2 (n div 100) @ pad2 n"

function decimal :: "nat \<Rightarrow> string" where
  "decimal n = (if n < 10 then [digit_char n] else decimal (n div 10) @ [digit_char n])"
  by pat_completeness auto
termination
  by (relation "measure id") auto

declare decimal.simps [simp del]

definition strftime :: "date \<Rightarrow> string" where
  "strftime dt = decimal (year dt) @ ''-'' @ pad2 (month dt) @ ''-'' @ pad2 (day dt)"

section \<open>The validity range of a flyer\<close>

text \<open>
  Lines 140 to 152 of \<open>parse_flyer\<close>, on the stripped text of the span: with the
  marker \<open>von\<close> anywhere in the text, the text is cut at single spaces and the
  third piece is the start date; otherwise it is cut at \<open>" - "\<close> and the first
  two pieces are the two dates. A missing piece is an \<open>IndexError\<close>.
\<close>

definition list_get :: "'a list \<Rightarrow> nat \<Rightarrow> py_exception + 'a" where
  "list_get xs i = (if i < length xs then Inr (xs ! i) else Inl IndexError)"

definition parse_validity_range :: "string \<Rightarrow> py_exception + (string \<times> string)" where
  "parse_validity_range r =
     (if contains ''von'' r then
        (case list_get (split_py '' '' r) 2 of
           Inl e \<Rightarrow> Inl e
         | Inr t \<Rightarrow>
             (case strptime t of
                Inl e \<Rightarrow> Inl e
              | Inr d \<Rightarrow> Inr (strftime d, [])))
      else
        (let dates = split_py '' - '' r in
         case list_get dates 0 of
           Inl e \<Rightarrow> Inl e
         | Inr t1 \<Rightarrow>
             (case strptime t1 of
                Inl e \<Rightarrow> Inl e
              | Inr d1 \<Rightarrow>
                  (case list_get dates 1 of
                     Inl e \<Rightarrow> Inl e
                   | Inr t2 \<Rightarrow>
                       (case strptime t2 of
                          Inl e \<Rightarrow> Inl e
                        | Inr d2 \<Rightarrow> Inr (strftime d1, strftime d2))))))"

section \<open>Flyer elements and records\<close>

text \<open>
  What \<open>parse_flyer\<close> reads of a rendered flyer element: the \<open>textContent\<close> of its
  first \<open>h2\<close> and \<open>span\<close> descendants and the \<open>src\<close> and \<open>data-src\<close> attributes of
  its first \<open>img\<close> descendant. \<open>None\<close> for a descendant means that \<open>find_element\<close>
  raises \<open>NoSuchElementException\<close>; \<open>None\<close> for an attribute means that
  \<open>get_attribute\<close> returns \<open>None\<close>.
\<close>

record img_element =
  src :: "string option"
  data_src :: "string option"

record flyer_element =
  h2 :: "string option"
  img :: "img_element option"
  span :: "string option"

text \<open>The dictionary appended to \<open>parsed_flyers\<close>.\<close>

record flyer =
  title :: string
  thumbnail :: "string option"
  shop_name :: string
  valid_from :: string
  valid_to :: string
  parsed_time :: string

text \<open>\<open>a or b\<close> on two attribute values: \<open>None\<close> and the empty string are falsy.\<close>

definition py_or :: "string option \<Rightarrow> string option \<Rightarrow> string option" where
  "py_or a b = (case a of None \<Rightarrow> b | Some x \<Rightarrow> (if x = [] then b else Some x))"

section \<open>The parser object, the log and the outside world\<close>

datatype log_level = INFO | WARNING | ERROR

text \<open>One constructor for each logging call of the class, with the values it prints.\<close>

datatype log_entry =
    WebsiteParsed string
  | ParsingFailed string py_exception
  | ErrorOccured py_exception
  | ParsingCompleted nat
  | FlyersNotFound string
  | ShopDone string nat
  | FlyerFailed string py_exception

fun level :: "log_entry \<Rightarrow> log_level" where
  "level (WebsiteParsed _) = INFO"
| "level (ParsingFailed _ _) = ERROR"
| "level (ErrorOccured _) = ERROR"
| "level (ParsingCompleted _) = INFO"
| "level (FlyersNotFound _) = WARNING"
| "level (ShopDone _ _) = INFO"
| "level (FlyerFailed _ _) = ERROR"

text \<open>What is done with the browser driver: \<open>webdriver.Chrome()\<close>, \<open>driver.get(url)\<close>, \<open>driver.quit()\<close>.\<close>

datatype driver_event = Acquire | Navigate string | Quit

text \<open>
  The attributes of a \<open>FlyerParser\<close> object, with the driver represented by the
  trace of what was done with it, together with the log written so far and the
  number of times \<open>datetime.now()\<close> has been read.
\<close>

record parser_state =
  base_url :: string
  driver :: "driver_event list"
  parsed_flyers :: "flyer list"
  logged :: "log_entry list"
  clock_reads :: nat

text \<open>The parsed HTML tree of BeautifulSoup: text nodes and tags with attributes and children.\<close>

datatype node = Text string | Tag string "(string \<times> string) list" "node list"

text \<open>
  The world outside the program: \<open>requests_get url\<close> is the parsed page or the
  exception of \<open>requests.get\<close>; \<open>render url\<close> is the outcome of \<open>driver.get(url)\<close>
  followed by the ten-second wait for the flyer figures, the elements found or
  the exception raised; \<open>now n\<close> is the formatted value of the \<open>n\<close>-th reading of
  \<open>datetime.now()\<close>.
\<close>

record world =
  requests_get :: "string \<Rightarrow> py_exception + node list"
  render :: "string \<Rightarrow> py_exception + flyer_element list"
  now :: "nat \<Rightarrow> string"

definition FlyerParser_init :: "string \<Rightarrow> parser_state" where
  "FlyerParser_init url =
     \<lparr>base_url = url, driver = [Acquire], parsed_flyers = [], logged = [], clock_reads = 0\<rparr>"

section \<open>\<open>parse_flyer\<close>\<close>

text \<open>
  The body of the \<open>try\<close> up to the dictionary: the three sub-elements are looked
  up in the order title, image, validity range, and the range is parsed.
\<close>

definition flyer_fields ::
  "flyer_element \<Rightarrow> py_exception + (string \<times> string option \<times> string \<times> string)" where
  "flyer_fields el =
     (case h2 el of
        None \<Rightarrow> Inl NoSuchElementException
      | Some t \<Rightarrow>
          (case img el of
             None \<Rightarrow> Inl NoSuchElementException
           | Some thumb \<Rightarrow>
               (case span el of
                  None \<Rightarrow> Inl NoSuchElementException
                | Some r \<Rightarrow>
                    (case parse_validity_range (strip r) of
                       Inl e \<Rightarrow> Inl e
                     | Inr (vf, vt) \<Rightarrow>
                         Inr (strip t, py_or (src thumb) (data_src thumb), vf, vt)))))"

text \<open>
  Any exception is logged and swallowed; otherwise the clock is read and the
  record is appended.
\<close>

definition parse_flyer :: "world \<Rightarrow> parser_state \<Rightarrow> flyer_element \<Rightarrow> string \<Rightarrow> parser_state" where
  "parse_flyer w s el name =
     (case flyer_fields el of
        Inl e \<Rightarrow> s\<lparr>logged := logged s @ [FlyerFailed name e]\<rparr>
      | Inr (t, th, vf, vt) \<Rightarrow>
          s\<lparr>parsed_flyers := parsed_flyers s @
               [\<lparr>title = t, thumbnail = th, shop_name = name, valid_from = vf,
                 valid_to = vt, parsed_time = now w (clock_reads s)\<rparr>],
            clock_reads := Suc (clock_reads s)\<rparr>)"

section \<open>\<open>parse_category_shop\<close>\<close>

text \<open>The loop of lines 117 and 118 over the elements found.\<close>

abbreviation flyers_loop :: "world \<Rightarrow> string \<Rightarrow> parser_state \<Rightarrow> flyer_element list \<Rightarrow> parser_state" where
  "flyers_loop w name s flyers \<equiv> foldl (\<lambda>a el. parse_flyer w a el name) s flyers"


text \<open>
  The result is the new state and the exception that leaves the method, if
  any. \<open>shop\<close> is \<open>link.get("href")\<close>, which is \<open>None\<close> for an anchor without the
  attribute; \<open>base_url + None\<close> is a \<open>TypeError\<close>. A timeout is logged as a warning
  and the method returns. Any other exception of the \<open>try\<close> is logged as an error;
  the method then goes on to the loop over \<open>flyers\<close>, which was never assigned, and
  the \<open>UnboundLocalError\<close> leaves the method.
\<close>

definition parse_category_shop ::
  "world \<Rightarrow> parser_state \<Rightarrow> string option \<Rightarrow> string \<Rightarrow> parser_state \<times> py_exception option" where
  "parse_category_shop w s shop name =
     (case shop of
        None \<Rightarrow> (s\<lparr>logged := logged s @ [ErrorOccured TypeError]\<rparr>, Some UnboundLocalError)
      | Some path \<Rightarrow>
          (let url = base_url s @ path;
               s1 = s\<lparr>driver := driver s @ [Navigate url]\<rparr>
           in case render w url of
                Inl e \<Rightarrow>
                  (if e = TimeoutException
                   then (s1\<lparr>logged := logged s1 @ [FlyersNotFound name]\<rparr>, None)
                   else (s1\<lparr>logged := logged s1 @ [ErrorOccured e]\<rparr>, Some UnboundLocalError))
              | Inr flyers \<Rightarrow>
                  (let s2 = flyers_loop w name s1 flyers
                   in (s2\<lparr>logged := logged s2 @ [ShopDone name (length flyers)]\<rparr>, None))))"

section \<open>\<open>parse_flyers_category\<close>\<close>

text \<open>\<open>link.get("href")\<close> and \<open>link.get_text()\<close>.\<close>

fun get_attr :: "node \<Rightarrow> string \<Rightarrow> string option" where
  "get_attr (Text _) _ = None"
| "get_attr (Tag _ attrs _) k = map_of attrs k"

fun get_text :: "node \<Rightarrow> string" where
  "get_text (Text t) = t"
| "get_text (Tag _ _ children) = concat (map get_text children)"

text \<open>
  \<open>soup.select_one('a[href="category"]')\<close>: the first \<open>a\<close> tag in document order
  whose \<open>href\<close> is the category, the category being a plain path that the quoted
  selector string denotes as it is. \<open>find_anchor\<close> returns the nodes that follow
  it under its parent.
\<close>

fun find_anchor :: "string \<Rightarrow> node list \<Rightarrow> node list option" where
  "find_anchor category [] = None"
| "find_anchor category (Text _ # ns) = find_anchor category ns"
| "find_anchor category (Tag name attrs children # ns) =
     (if name = ''a'' \<and> map_of attrs ''href'' = Some category then Some ns
      else (case find_anchor category children of
              Some r \<Rightarrow> Some r
            | None \<Rightarrow> find_anchor category ns))"

text \<open>\<open>find_next_sibling()\<close>: the first tag among the following siblings.\<close>

fun find_next_sibling :: "node list \<Rightarrow> node option" where
  "find_next_sibling [] = None"
| "find_next_sibling (Text _ # ns) = find_next_sibling ns"
| "find_next_sibling (Tag name attrs children # ns) = Some (Tag name attrs children)"

text \<open>
  \<open>select("li > a")\<close> below a tag: its descendant \<open>a\<close> tags whose parent is an \<open>li\<close>
  tag, in document order. The first argument is the name of the parent of the
  nodes of the second.
\<close>

fun select_li_a :: "string \<Rightarrow> node list \<Rightarrow> node list" where
  "select_li_a parent [] = []"
| "select_li_a parent (Text _ # ns) = select_li_a parent ns"
| "select_li_a parent (Tag name attrs children # ns) =
     (if name = ''a'' \<and> parent = ''li'' then [Tag name attrs children] else [])
     @ select_li_a name children @ select_li_a parent ns"

text \<open>
  Lines 76 to 79. \<open>select_one\<close> and \<open>find_next_sibling\<close> return \<open>None\<close> when nothing
  is found, and the method call on \<open>None\<close> is an \<open>AttributeError\<close>.
\<close>

definition category_dropdown_links :: "string \<Rightarrow> node list \<Rightarrow> py_exception + node list" where
  "category_dropdown_links category soup =
     (case find_anchor category soup of
        None \<Rightarrow> Inl AttributeError
      | Some siblings \<Rightarrow>
          (case find_next_sibling siblings of
             Some (Tag name attrs children) \<Rightarrow> Inr (select_li_a name children)
           | _ \<Rightarrow> Inl AttributeError))"

text \<open>The loop of lines 81 and 82; an exception of \<open>parse_category_shop\<close> ends it.\<close>

fun shops_loop :: "world \<Rightarrow> parser_state \<Rightarrow> node list \<Rightarrow> parser_state \<times> py_exception option" where
  "shops_loop w s [] = (s, None)"
| "shops_loop w s (link # links) =
     (case parse_category_shop w s (get_attr link ''href'') (get_text link) of
        (s', None) \<Rightarrow> shops_loop w s' links
      | (s', Some e) \<Rightarrow> (s', Some e))"

text \<open>
  The \<open>try\<close> block with its two handlers, then the \<open>finally\<close> block: the driver is
  quit and the number of flyers is logged.
\<close>

definition try_body :: "world \<Rightarrow> parser_state \<Rightarrow> string \<Rightarrow> parser_state" where
  "try_body w s category =
     (let s0 = s\<lparr>parsed_flyers := []\<rparr>;
          webpage_url = base_url s @ category
      in case requests_get w webpage_url of
           Inl e \<Rightarrow>
             (if e = RequestException
              then s0\<lparr>logged := logged s0 @ [ParsingFailed webpage_url e]\<rparr>
              else s0\<lparr>logged := logged s0 @ [ErrorOccured e]\<rparr>)
         | Inr soup \<Rightarrow>
             (let s1 = s0\<lparr>logged := logged s0 @ [WebsiteParsed webpage_url]\<rparr>
              in case category_dropdown_links category soup of
                   Inl e \<Rightarrow> s1\<lparr>logged := logged s1 @ [ErrorOccured e]\<rparr>
                 | Inr links \<Rightarrow>
                     (case shops_loop w s1 links of
                        (s2, None) \<Rightarrow> s2
                      | (s2, Some e) \<Rightarrow> s2\<lparr>logged := logged s2 @ [ErrorOccured e]\<rparr>)))"

definition parse_flyers_category :: "world \<Rightarrow> parser_state \<Rightarrow> string \<Rightarrow> parser_state" where
  "parse_flyers_category w s category =
     (let s' = try_body w s category
      in s'\<lparr>driver := driver s' @ [Quit],
            logged := logged s' @ [ParsingCompleted (length (parsed_flyers s'))]\<rparr>)"

text \<open>
  The main program: the parser is constructed, which starts the browser, and
  one category is parsed.
\<close>

definition run :: "world \<Rightarrow> string \<Rightarrow> string \<Rightarrow> parser_state" where
  "run w url category = parse_flyers_category w (FlyerParser_init url) category"

section \<open>Date tokens and ISO dates, as the specification words them\<close>

text \<open>
  A calendar date: a year from 1 to 9999, a month from 1 to 12 and a day that
  the month has in that year.
\<close>

definition valid_date :: "nat \<Rightarrow> nat \<Rightarrow> nat \<Rightarrow> bool" where
  "valid_date y m d =
     (1 \<le> y \<and> y \<le> 9999 \<and> 1 \<le> m \<and> m \<le> 12 \<and> 1 \<le> d \<and> d \<le> days_in_month y m)"

text \<open>
  The ways a day or month number is written in a date token: two digits, or
  one digit for a number below ten. The day may also be one digit after a
  space.
\<close>

definition numeral_forms :: "nat \<Rightarrow> string set" where
  "numeral_forms n = (if n < 10 then {[digit_char n], pad2 n} else {pad2 n})"

definition day_forms :: "nat \<Rightarrow> string set" where
  "day_forms n = numeral_forms n \<union> (if n < 10 then {[CHR '' '', digit_char n]} else {})"

text \<open>\<open>date_token t y m d\<close>: the text \<open>t\<close> is day.month.year for the calendar date \<open>y\<close>, \<open>m\<close>, \<open>d\<close>.\<close>

definition date_token :: "string \<Rightarrow> nat \<Rightarrow> nat \<Rightarrow> nat \<Rightarrow> bool" where
  "date_token t y m d =
     (valid_date y m d \<and>
      (\<exists>dt \<in> day_forms d. \<exists>mt \<in> numeral_forms m. t = dt @ ''.'' @ mt @ ''.'' @ pad4 y))"

text \<open>
  The token in the strict form DD.MM.YYYY, the ISO form YYYY-MM-DD, and the form
  with the year in decimal without leading zeros, which is the ISO form from
  the year 1000 on.
\<close>

definition dd_mm_yyyy :: "nat \<Rightarrow> nat \<Rightarrow> nat \<Rightarrow> string" where
  "dd_mm_yyyy y m d = pad2 d @ ''.'' @ pad2 m @ ''.'' @ pad4 y"

definition iso_date :: "nat \<Rightarrow> nat \<Rightarrow> nat \<Rightarrow> string" where
  "iso_date y m d = pad4 y @ ''-'' @ pad2 m @ ''-'' @ pad2 d"

definition year_month_day :: "nat \<Rightarrow> nat \<Rightarrow> nat \<Rightarrow> string" where
  "year_month_day y m d = decimal y @ ''-'' @ pad2 m @ ''-'' @ pad2 d"

text \<open>A text has the strict form: two digits, a dot, two digits, a dot, four digits.\<close>

definition strict_token :: "string \<Rightarrow> bool" where
  "strict_token t =
     (length t = 10 \<and> t ! 2 = CHR ''.'' \<and> t ! 5 = CHR ''.''
      \<and> list_all is_digit (take 2 t @ take 2 (drop 3 t) @ drop 6 t))"

text \<open>
  A text is a syntactically valid calendar date in ISO form: ten characters,
  digits around hyphens at positions 4 and 7, whose numbers are a calendar date.
\<close>

definition is_iso_date :: "string \<Rightarrow> bool" where
  "is_iso_date s =
     (length s = 10 \<and> s ! 4 = CHR ''-'' \<and> s ! 7 = CHR ''-''
      \<and> list_all is_digit (take 4 s @ take 2 (drop 5 s) @ drop 8 s)
      \<and> valid_date (digits_value (take 4 s)) (digits_value (take 2 (drop 5 s)))
           (digits_value (drop 8 s)))"

text \<open>
  A text is a calendar date written year-month-day as the program prints it:
  the year in one to four digits without a leading zero, then a hyphen, two
  digits, a hyphen and two digits, the numbers being a calendar date.
\<close>

definition is_date_text :: "string \<Rightarrow> bool" where
  "is_date_text s =
     (let k = length s - 6; yt = take k s; rest = drop k s
      in 6 < length s \<and> length s \<le> 10 \<and> list_all is_digit yt \<and> hd s \<noteq> CHR ''0''
         \<and> rest ! 0 = CHR ''-'' \<and> rest ! 3 = CHR ''-''
         \<and> list_all is_digit (take 2 (drop 1 rest) @ drop 4 rest)
         \<and> valid_date (digits_value yt) (digits_value (take 2 (drop 1 rest)))
              (digits_value (drop 4 rest)))"

text \<open>
  The shapes of a validity text. \<open>third_piece r t\<close>: \<open>t\<close> is the third of the pieces
  of \<open>r\<close> between single spaces. \<open>hyphen_pair r t1 t2\<close>: \<open>r\<close> is \<open>t1\<close>, the hyphen
  between single spaces and \<open>t2\<close>, and either ends there or goes on with another
  hyphen between single spaces.
\<close>

definition third_piece :: "string \<Rightarrow> string \<Rightarrow> bool" where
  "third_piece r t =
     (\<exists>a b rest. r = a @ '' '' @ b @ '' '' @ t @ rest
        \<and> CHR '' '' \<notin> set a \<and> CHR '' '' \<notin> set b \<and> CHR '' '' \<notin> set t
        \<and> (rest = [] \<or> (\<exists>x. rest = CHR '' '' # x)))"

definition hyphen_pair :: "string \<Rightarrow> string \<Rightarrow> string \<Rightarrow> bool" where
  "hyphen_pair r t1 t2 =
     (r = t1 @ '' - '' @ t2 \<or> (\<exists>more. r = t1 @ '' - '' @ t2 @ '' - '' @ more))"

section \<open>Notions used to state the properties of the pipeline\<close>

text \<open>
  Per-flyer processing fails when a required sub-element is missing or the
  validity range does not parse.
\<close>

definition processing_fails :: "flyer_element \<Rightarrow> bool" where
  "processing_fails el =
     (h2 el = None \<or> img el = None \<or>
      (case span el of None \<Rightarrow> True | Some r \<Rightarrow> isl (parse_validity_range (strip r))))"

text \<open>The record that \<open>parse_flyer\<close> builds for an element, a shop name and a clock reading.\<close>

definition flyer_record :: "flyer_element \<Rightarrow> string \<Rightarrow> string \<Rightarrow> flyer option" where
  "flyer_record el name time =
     (case flyer_fields el of
        Inl e \<Rightarrow> None
      | Inr (t, th, vf, vt) \<Rightarrow>
          Some \<lparr>title = t, thumbnail = th, shop_name = name, valid_from = vf,
                valid_to = vt, parsed_time = time\<rparr>)"

text \<open>Every record of the collection has a calendar date, written year-month-day, as \<open>valid_from\<close>.\<close>

definition valid_from_ok :: "parser_state \<Rightarrow> bool" where
  "valid_from_ok s = list_all (\<lambda>r. is_date_text (valid_from r)) (parsed_flyers s)"

text \<open>
  Two states agree on what the output depends on, the base URL, the collection
  and the number of clock readings, and on the errors logged.
\<close>

definition errors_logged :: "parser_state \<Rightarrow> log_entry list" where
  "errors_logged s = filter (\<lambda>e. level e = ERROR) (logged s)"

definition agree :: "parser_state \<Rightarrow> parser_state \<Rightarrow> bool" where
  "agree s t =
     (base_url s = base_url t \<and> parsed_flyers s = parsed_flyers t
      \<and> clock_reads s = clock_reads t \<and> errors_logged s = errors_logged t)"

text \<open>
  The menu of a category in the page, described on the tree. A category anchor
  is an \<open>a\<close> tag whose \<open>href\<close> is the category. \<open>follows_anchor category soup c\<close>: the
  tag \<open>c\<close> is the next tag after the first category anchor of the page, in
  document order, among the nodes that follow the anchor under its parent.
\<close>

fun is_category_anchor :: "string \<Rightarrow> node \<Rightarrow> bool" where
  "is_category_anchor category (Text _) = False"
| "is_category_anchor category (Tag name attrs _) =
     (name = ''a'' \<and> map_of attrs ''href'' = Some category)"

fun has_category_anchor :: "string \<Rightarrow> node list \<Rightarrow> bool" where
  "has_category_anchor category [] = False"
| "has_category_anchor category (Text _ # ns) = has_category_anchor category ns"
| "has_category_anchor category (Tag name attrs children # ns) =
     (is_category_anchor category (Tag name attrs children)
      \<or> has_category_anchor category children \<or> has_category_anchor category ns)"

fun is_text :: "node \<Rightarrow> bool" where
  "is_text (Text _) = True"
| "is_text (Tag _ _ _) = False"

inductive follows_anchor :: "string \<Rightarrow> node list \<Rightarrow> node \<Rightarrow> bool" where
  here:
    "\<not> has_category_anchor category before \<Longrightarrow> is_category_anchor category a \<Longrightarrow>
     list_all is_text gap \<Longrightarrow>
     follows_anchor category (before @ a # gap @ Tag name attrs children # after)
       (Tag name attrs children)"
| inside:
    "\<not> has_category_anchor category before \<Longrightarrow>
     \<not> is_category_anchor category (Tag name attrs children) \<Longrightarrow>
     follows_anchor category children c \<Longrightarrow>
     follows_anchor category (before @ Tag name attrs children # after) c"

text \<open>
  The anchors of the menu: of the tags below the container, in document order
  and each with the name of its parent, those named \<open>a\<close> whose parent is named
  \<open>li\<close>.
\<close>

fun descendants :: "string \<Rightarrow> node list \<Rightarrow> (string \<times> node) list" where
  "descendants parent [] = []"
| "descendants parent (Text _ # ns) = descendants parent ns"
| "descendants parent (Tag name attrs children # ns) =
     (parent, Tag name attrs children) # descendants name children @ descendants parent ns"

fun tag_name :: "node \<Rightarrow> string" where
  "tag_name (Text _) = []"
| "tag_name (Tag name _ _) = name"

definition li_anchors :: "node \<Rightarrow> node list" where
  "li_anchors container =
     (case container of
        Text _ \<Rightarrow> []
      | Tag name attrs children \<Rightarrow>
          map snd (filter (\<lambda>(parent, nd). parent = ''li'' \<and> tag_name nd = ''a'')
            (descendants name children)))"

text \<open>
  The pages the driver was sent to, and the shop names in the log entries that
  end the collection of a shop.
\<close>

fun navigated :: "driver_event \<Rightarrow> string option" where
  "navigated (Navigate u) = Some u"
| "navigated _ = None"

definition navigations :: "driver_event list \<Rightarrow> string list" where
  "navigations evs = List.map_filter navigated evs"

fun shop_logged :: "log_entry \<Rightarrow> string option" where
  "shop_logged (FlyersNotFound n) = Some n"
| "shop_logged (ShopDone n _) = Some n"
| "shop_logged _ = None"

definition shops_logged :: "log_entry list \<Rightarrow> string list" where
  "shops_logged es = List.map_filter shop_logged es"

section \<open>A small site, for concrete runs\<close>

text \<open>
  A category page whose menu lists two shops, of which the first shows one flyer
  and the second none before the wait ends, a page that lists the first shop
  only, and a page on which the anchor text of the shop is surrounded by spaces.
\<close>

definition demo_flyer :: flyer_element where
  "demo_flyer =
     \<lparr>h2 = Some '' Angebote der Woche '',
      img = Some \<lparr>src = Some ''https://site/a.jpg'', data_src = None\<rparr>,
      span = Some ''01.06.2024 - 15.06.2024''\<rparr>"

definition demo_soup :: "node list" where
  "demo_soup =
     [Tag ''nav'' []
        [Tag ''a'' [(''href'', ''/hypermarkte/'')] [Text ''Hypermarkte''],
         Text '' '',
         Tag ''ul'' []
           [Tag ''li'' [] [Tag ''a'' [(''href'', ''/a/'')] [Text ''Alpha'']],
            Tag ''li'' [] [Tag ''a'' [(''href'', ''/b/'')] [Text ''Beta'']]]]]"

definition alpha_soup :: "node list" where
  "alpha_soup =
     [Tag ''a'' [(''href'', ''/hypermarkte/'')] [Text ''Hypermarkte''],
      Tag ''ul'' [] [Tag ''li'' [] [Tag ''a'' [(''href'', ''/a/'')] [Text ''Alpha'']]]]"

definition spaced_soup :: "node list" where
  "spaced_soup =
     [Tag ''a'' [(''href'', ''/hypermarkte/'')] [Text ''Hypermarkte''],
      Tag ''ul'' [] [Tag ''li'' [] [Tag ''a'' [(''href'', ''/a/'')] [Text '' Alpha '']]]]"

definition demo_world :: "node list \<Rightarrow> world" where
  "demo_world soup =
     \<lparr>requests_get = (\<lambda>u. if u = ''https://site/hypermarkte/'' then Inr soup
                            else Inl RequestException),
      render = (\<lambda>u. if u = ''https://site/a/'' then Inr [demo_flyer] else Inl TimeoutException),
      now = (\<lambda>n. ''2024-06-02 10:00:00'')\<rparr>"

text \<open>A world in which the page of a shop shows a flyer without image before the flyer above.\<close>

definition mixed_world :: world where
  "mixed_world =
     \<lparr>requests_get = (\<lambda>u. Inl RequestException),
      render = (\<lambda>u. Inr [demo_flyer\<lparr>img := None\<rparr>, demo_flyer]),
      now = (\<lambda>n. ''2024-06-02 10:00:00'')\<rparr>"

section \<open>Characters, digits and the groups of the format expression\<close>

lemma cp_eq_iff: "(c = d) = (cp c = cp d)"
  by (simp add: cp_def)

lemma cp_lits:
  "cp (CHR ''0'') = 48" "cp (CHR ''1'') = 49" "cp (CHR ''2'') = 50" "cp (CHR ''3'') = 51"
  "cp (CHR ''9'') = 57" "cp (CHR '' '') = 32" "cp (CHR ''.'') = 46" "cp (CHR ''-'') = 45"
  "cp (CHR ''v'') = 118"
  by (simp_all add: cp_def)

lemma char_of_digits:
  "char_of (48::nat) = CHR ''0''" "char_of (49::nat) = CHR ''1''" "char_of (50::nat) = CHR ''2''"
  "char_of (51::nat) = CHR ''3''" "char_of (52::nat) = CHR ''4''" "char_of (53::nat) = CHR ''5''"
  "char_of (54::nat) = CHR ''6''" "char_of (55::nat) = CHR ''7''" "char_of (56::nat) = CHR ''8''"
  "char_of (57::nat) = CHR ''9''"
  by (simp_all add: cp_eq_iff cp_def)

lemma cp_digit_char: "cp (digit_char n) = 48 + n mod 10"
  by (simp add: cp_def digit_char_def)

lemma digit_char_cp: "48 \<le> cp c \<Longrightarrow> cp c \<le> 57 \<Longrightarrow> digit_char (cp c - 48) = c"
  by (simp add: cp_eq_iff [of _ c] cp_digit_char)

lemma two_chars_iff:
  "(g, r) \<in> set (two_chars p q s) \<longleftrightarrow> (\<exists>c1 c2. s = c1 # c2 # r \<and> g = [c1, c2] \<and> p c1 \<and> q c2)"
  by (auto simp: two_chars_def split: list.splits)

lemma one_char_iff:
  "(g, r) \<in> set (one_char p s) \<longleftrightarrow> (\<exists>c. s = c # r \<and> g = [c] \<and> p c)"
  by (auto simp: one_char_def split: list.splits)

lemma re_Y_iff:
  "(g, r) \<in> set (re_Y s) \<longleftrightarrow>
     (\<exists>c1 c2 c3 c4. s = c1 # c2 # c3 # c4 # r \<and> g = [c1, c2, c3, c4]
        \<and> is_digit c1 \<and> is_digit c2 \<and> is_digit c3 \<and> is_digit c4)"
  by (auto simp: re_Y_def split: list.splits)

lemma format_regex_iff:
  "((d, m, y), rest) \<in> set (format_regex s) \<longleftrightarrow>
     (\<exists>r1 r2 r3 r4 g1 g2. (d, r1) \<in> set (re_d s) \<and> (g1, r2) \<in> set (re_dot r1)
        \<and> (m, r3) \<in> set (re_m r2) \<and> (g2, r4) \<in> set (re_dot r3) \<and> (y, rest) \<in> set (re_Y r4))"
  unfolding format_regex_def by fastforce

lemma pad2_digits: "a < 10 \<Longrightarrow> b < 10 \<Longrightarrow> pad2 (10 * a + b) = [digit_char a, digit_char b]"
  by (simp add: pad2_def digit_char_def)

lemma pad2_cp:
  assumes "48 \<le> cp c1" "cp c1 \<le> 57" "48 \<le> cp c2" "cp c2 \<le> 57"
  shows "pad2 (10 * (cp c1 - 48) + (cp c2 - 48)) = [c1, c2]"
proof -
  have "cp c1 - 48 < 10" "cp c2 - 48 < 10" using assms by simp_all
  then have "pad2 (10 * (cp c1 - 48) + (cp c2 - 48)) = [digit_char (cp c1 - 48), digit_char (cp c2 - 48)]"
    by (rule pad2_digits)
  also have "\<dots> = [c1, c2]" using assms by (simp only: digit_char_cp)
  finally show ?thesis .
qed

lemma re_d_sound:
  assumes "(g, r) \<in> set (re_d s)"
  shows "s = g @ r \<and> (\<exists>n. 1 \<le> n \<and> n \<le> 31 \<and> g \<in> day_forms n)"
proof -
  from assms consider
      (two) c1 c2 where "s = c1 # c2 # r" "g = [c1, c2]" "48 \<le> cp c1" "cp c1 \<le> 57"
        "48 \<le> cp c2" "cp c2 \<le> 57" "1 \<le> 10 * (cp c1 - 48) + (cp c2 - 48)"
        "10 * (cp c1 - 48) + (cp c2 - 48) \<le> 31"
    | (one) c where "s = c # r" "g = [c]" "49 \<le> cp c" "cp c \<le> 57"
    | (sp) c where "s = CHR '' '' # c # r" "g = [CHR '' '', c]" "49 \<le> cp c" "cp c \<le> 57"
    unfolding re_d_def set_append Un_iff two_chars_iff one_char_iff in_range_def is_digit_def
    by (auto simp: cp_lits cp_eq_iff [of _ "CHR ''3''"] cp_eq_iff [of _ "CHR ''0''"])
  then show ?thesis
  proof cases
    case two
    let ?n = "10 * (cp c1 - 48) + (cp c2 - 48)"
    have "g = pad2 ?n" using two by (simp only: pad2_cp)
    then have "g \<in> day_forms ?n" by (simp add: day_forms_def numeral_forms_def)
    with two show ?thesis by auto
  next
    case one
    let ?n = "cp c - 48"
    have "g = [digit_char ?n]" using one by (simp add: digit_char_cp)
    moreover have "?n < 10" "1 \<le> ?n" using one by simp_all
    ultimately have "g \<in> day_forms ?n" "1 \<le> ?n" "?n \<le> 31"
      by (simp_all add: day_forms_def numeral_forms_def)
    with one show ?thesis by auto
  next
    case sp
    let ?n = "cp c - 48"
    have "g = [CHR '' '', digit_char ?n]" using sp by (simp add: digit_char_cp)
    moreover have "?n < 10" "1 \<le> ?n" using sp by simp_all
    ultimately have "g \<in> day_forms ?n" "1 \<le> ?n" "?n \<le> 31"
      by (simp_all add: day_forms_def numeral_forms_def)
    with sp show ?thesis by auto
  qed
qed

lemma re_m_sound:
  assumes "(g, r) \<in> set (re_m s)"
  shows "s = g @ r \<and> (\<exists>n. 1 \<le> n \<and> n \<le> 12 \<and> g \<in> numeral_forms n)"
proof -
  from assms consider
      (two) c1 c2 where "s = c1 # c2 # r" "g = [c1, c2]" "48 \<le> cp c1" "cp c1 \<le> 57"
        "48 \<le> cp c2" "cp c2 \<le> 57" "1 \<le> 10 * (cp c1 - 48) + (cp c2 - 48)"
        "10 * (cp c1 - 48) + (cp c2 - 48) \<le> 12"
    | (one) c where "s = c # r" "g = [c]" "49 \<le> cp c" "cp c \<le> 57"
    unfolding re_m_def set_append Un_iff two_chars_iff one_char_iff in_range_def is_digit_def
    by (auto simp: cp_lits cp_eq_iff [of _ "CHR ''1''"] cp_eq_iff [of _ "CHR ''0''"])
  then show ?thesis
  proof cases
    case two
    let ?n = "10 * (cp c1 - 48) + (cp c2 - 48)"
    have "g = pad2 ?n" using two by (simp only: pad2_cp)
    then have "g \<in> numeral_forms ?n" by (simp add: numeral_forms_def)
    with two show ?thesis by auto
  next
    case one
    let ?n = "cp c - 48"
    have "g = [digit_char ?n]" using one by (simp add: digit_char_cp)
    moreover have "?n < 10" "1 \<le> ?n" using one by simp_all
    ultimately have "g \<in> numeral_forms ?n" "1 \<le> ?n" "?n \<le> 12"
      by (simp_all add: numeral_forms_def)
    with one show ?thesis by auto
  qed
qed

lemma pad2_hundreds: "pad2 (100 * h + l) = pad2 l"
proof -
  have e: "100 * h + l = 10 * (10 * h) + l" by simp
  have "(100 * h + l) mod 10 = l mod 10"
    using e by (simp only: mod_mult_self4)
  then have a: "digit_char (100 * h + l) = digit_char l"
    by (simp add: digit_char_def)
  have "(100 * h + l) div 10 = 10 * h + l div 10"
    using e by (simp only: div_mult_self4)
  then have "(100 * h + l) div 10 mod 10 = l div 10 mod 10"
    by (simp only: mod_mult_self4)
  then have b: "digit_char ((100 * h + l) div 10) = digit_char (l div 10)"
    by (simp add: digit_char_def)
  show ?thesis by (simp only: pad2_def a b)
qed

lemma pad4_pairs: "l < 100 \<Longrightarrow> pad4 (100 * h + l) = pad2 h @ pad2 l"
  by (simp add: pad4_def pad2_hundreds)

lemma re_Y_sound:
  assumes "(g, r) \<in> set (re_Y s)"
  shows "s = g @ r \<and> (\<exists>n. n \<le> 9999 \<and> g = pad4 n)"
proof -
  from assms obtain c1 c2 c3 c4 where s: "s = c1 # c2 # c3 # c4 # r" "g = [c1, c2, c3, c4]"
    and d: "48 \<le> cp c1" "cp c1 \<le> 57" "48 \<le> cp c2" "cp c2 \<le> 57"
      "48 \<le> cp c3" "cp c3 \<le> 57" "48 \<le> cp c4" "cp c4 \<le> 57"
    unfolding re_Y_iff is_digit_def in_range_def by (auto simp: cp_lits)
  define h l where "h = 10 * (cp c1 - 48) + (cp c2 - 48)" and "l = 10 * (cp c3 - 48) + (cp c4 - 48)"
  have lt: "h < 100" "l < 100" using d by (simp_all add: h_def l_def)
  have "pad2 h = [c1, c2]" "pad2 l = [c3, c4]"
    unfolding h_def l_def using d by (simp_all only: pad2_cp)
  then have "pad4 (100 * h + l) = g" using lt s by (simp add: pad4_pairs)
  moreover have "100 * h + l \<le> 9999" using lt by simp
  ultimately show ?thesis using s by auto
qed

lemma not_isspace_digit_char: "\<not> isspace (digit_char n)"
proof -
  have "n mod 10 < 10" by simp
  then show ?thesis unfolding isspace_def cp_digit_char by linarith
qed

lemma isspace_space: "isspace (CHR '' '')"
  by (simp add: isspace_def cp_lits)

lemma cp_digit_char_val: "cp (digit_char n) - 48 = n mod 10"
  by (simp add: cp_digit_char)

lemma dec2: "(n::nat) < 100 \<Longrightarrow> 10 * (n div 10 mod 10) + n mod 10 = n"
proof -
  assume "n < 100"
  then have "n div 10 < 10" by simp
  then have "n div 10 mod 10 = n div 10" by simp
  then show ?thesis by simp
qed

lemma digits_value_pad2: "n < 100 \<Longrightarrow> digits_value (pad2 n) = n"
  by (simp add: digits_value_def pad2_def cp_digit_char_val dec2)

lemma digits_value_append2: "digits_value (xs @ [a, b]) = 100 * digits_value xs + digits_value [a, b]"
  by (simp add: digits_value_def)

lemma digits_value_pad4: "n \<le> 9999 \<Longrightarrow> digits_value (pad4 n) = n"
proof -
  assume n: "n \<le> 9999"
  have l: "n mod 100 < 100" by simp
  have h: "n div 100 < 100" using n by simp
  have "pad2 n = pad2 (n mod 100)"
    using pad2_hundreds [of "n div 100" "n mod 100"] by simp
  then have "digits_value (pad4 n) = 100 * digits_value (pad2 (n div 100)) + digits_value (pad2 (n mod 100))"
    using digits_value_append2 [of "pad2 (n div 100)"] by (simp add: pad4_def pad2_def)
  then show ?thesis using l h by (simp add: digits_value_pad2)
qed

lemma strip_digits: "strip (digit_char n # map digit_char ns) = digit_char n # map digit_char ns"
proof -
  have "dropWhile isspace (rev (map digit_char ns) @ [digit_char n]) = rev (map digit_char ns) @ [digit_char n]"
    by (cases "rev (map digit_char ns)") (auto simp: not_isspace_digit_char rev_map)
  then show ?thesis by (simp add: strip_def not_isspace_digit_char)
qed

lemma strip_pad2: "strip (pad2 n) = pad2 n"
  using strip_digits [of "n div 10" "[n]"] by (simp add: pad2_def)

lemma strip_pad4: "strip (pad4 n) = pad4 n"
  using strip_digits [of "n div 100 div 10" "[n div 100, n div 10, n]"]
  by (simp add: pad4_def pad2_def)

lemma int_of_group_pad2: "n < 100 \<Longrightarrow> int_of_group (pad2 n) = n"
  by (simp add: int_of_group_def strip_pad2 digits_value_pad2)

lemma int_of_group_pad4: "n \<le> 9999 \<Longrightarrow> int_of_group (pad4 n) = n"
  by (simp add: int_of_group_def strip_pad4 digits_value_pad4)

lemma int_of_group_one: "n < 10 \<Longrightarrow> int_of_group [digit_char n] = n"
  using strip_digits [of n "[]"]
  by (simp add: int_of_group_def digits_value_def cp_digit_char_val)

lemma int_of_group_sp: "n < 10 \<Longrightarrow> int_of_group [CHR '' '', digit_char n] = n"
  by (simp add: int_of_group_def strip_def digits_value_def not_isspace_digit_char
      isspace_space cp_digit_char_val)

lemma int_of_group_day: "g \<in> day_forms n \<Longrightarrow> n < 100 \<Longrightarrow> int_of_group g = n"
  by (auto simp: day_forms_def numeral_forms_def int_of_group_pad2 int_of_group_one
      int_of_group_sp split: if_splits)

lemma int_of_group_month: "g \<in> numeral_forms n \<Longrightarrow> n < 100 \<Longrightarrow> int_of_group g = n"
  by (auto simp: numeral_forms_def int_of_group_pad2 int_of_group_one split: if_splits)

lemma re_d_complete:
  assumes n: "1 \<le> n" "n \<le> 31" and g: "g \<in> day_forms n"
  shows "(g, r) \<in> set (re_d (g @ r))"
proof -
  define q u where "q = n div 10" and "u = n mod 10"
  have nqu: "n = 10 * q + u" and u: "u < 10" by (simp_all add: q_def u_def)
  with n have q: "q < 10" by simp
  from g consider (two) "g = pad2 n" | (one) "n < 10" "g = [digit_char n]"
    | (sp) "n < 10" "g = [CHR '' '', digit_char n]"
    by (auto simp: day_forms_def numeral_forms_def split: if_splits)
  then show ?thesis
  proof cases
    case two
    have c1: "cp (digit_char (n div 10)) = 48 + q" using q by (simp add: cp_digit_char q_def)
    have c2: "cp (digit_char n) = 48 + u" by (simp add: cp_digit_char u_def)
    from n nqu u have "(q = 3 \<and> u \<le> 1) \<or> (1 \<le> q \<and> q \<le> 2) \<or> (q = 0 \<and> 1 \<le> u)"
      by linarith
    then show ?thesis
      unfolding re_d_def set_append Un_iff two_chars_iff one_char_iff in_range_def is_digit_def
        two pad2_def
      using u by (auto simp: cp_lits c1 c2 cp_eq_iff [of _ "CHR ''3''"] cp_eq_iff [of _ "CHR ''0''"])
  next
    case one
    with n have "cp (digit_char n) = 48 + n" "1 \<le> n" "n \<le> 9" by (simp_all add: cp_digit_char)
    then show ?thesis
      unfolding re_d_def set_append Un_iff two_chars_iff one_char_iff in_range_def is_digit_def one
      by (simp add: cp_lits)
  next
    case sp
    with n have "cp (digit_char n) = 48 + n" "1 \<le> n" "n \<le> 9" by (simp_all add: cp_digit_char)
    then show ?thesis
      unfolding re_d_def set_append Un_iff two_chars_iff one_char_iff in_range_def is_digit_def sp
      by (simp add: cp_lits)
  qed
qed

lemma re_m_complete:
  assumes n: "1 \<le> n" "n \<le> 12" and g: "g \<in> numeral_forms n"
  shows "(g, r) \<in> set (re_m (g @ r))"
proof -
  define q u where "q = n div 10" and "u = n mod 10"
  have nqu: "n = 10 * q + u" and u: "u < 10" by (simp_all add: q_def u_def)
  with n have q: "q < 10" by simp
  from g consider (two) "g = pad2 n" | (one) "n < 10" "g = [digit_char n]"
    by (auto simp: numeral_forms_def split: if_splits)
  then show ?thesis
  proof cases
    case two
    have c1: "cp (digit_char (n div 10)) = 48 + q" using q by (simp add: cp_digit_char q_def)
    have c2: "cp (digit_char n) = 48 + u" by (simp add: cp_digit_char u_def)
    from n nqu u have "(q = 1 \<and> u \<le> 2) \<or> (q = 0 \<and> 1 \<le> u)"
      by linarith
    then show ?thesis
      unfolding re_m_def set_append Un_iff two_chars_iff one_char_iff in_range_def is_digit_def
        two pad2_def
      using u by (auto simp: cp_lits c1 c2 cp_eq_iff [of _ "CHR ''1''"] cp_eq_iff [of _ "CHR ''0''"])
  next
    case one
    with n have "cp (digit_char n) = 48 + n" "1 \<le> n" "n \<le> 9" by (simp_all add: cp_digit_char)
    then show ?thesis
      unfolding re_m_def set_append Un_iff two_chars_iff one_char_iff in_range_def is_digit_def one
      by (simp add: cp_lits)
  qed
qed

lemma is_digit_digit_char: "is_digit (digit_char n)"
proof -
  have "n mod 10 < 10" by simp
  then show ?thesis unfolding is_digit_def in_range_def cp_digit_char cp_lits by linarith
qed

lemma re_Y_complete: "(pad4 n, r) \<in> set (re_Y (pad4 n @ r))"
  by (simp add: re_Y_iff pad4_def pad2_def is_digit_digit_char)

lemma cut_unique:
  "c \<notin> set a \<Longrightarrow> c \<notin> set a' \<Longrightarrow> a @ c # b = a' @ c # b' \<Longrightarrow> a = a' \<and> b = b'"
proof (induction a arbitrary: a')
  case Nil
  then show ?case by (cases a') auto
next
  case (Cons x a)
  then show ?case by (cases a') auto
qed

lemma dot_not_digit_char: "CHR ''.'' \<noteq> digit_char n"
  by (simp add: cp_eq_iff cp_lits cp_digit_char)

lemma no_dot_numeral_forms: "g \<in> numeral_forms n \<Longrightarrow> CHR ''.'' \<notin> set g"
  by (auto simp: numeral_forms_def pad2_def dot_not_digit_char split: if_splits)

lemma no_dot_day_forms: "g \<in> day_forms n \<Longrightarrow> CHR ''.'' \<notin> set g"
  by (auto simp: day_forms_def no_dot_numeral_forms dot_not_digit_char split: if_splits)

lemma re_dot_iff: "(g, r) \<in> set (re_dot s) \<longleftrightarrow> s = CHR ''.'' # r \<and> g = ''.''"
  by (auto simp: re_dot_def one_char_iff)

text \<open>Every way the expression matches cuts the input at its first two dots.\<close>

lemma format_regex_sound:
  assumes "((d, m, y), rest) \<in> set (format_regex s)"
  shows "\<exists>nd nm ny. s = d @ CHR ''.'' # m @ CHR ''.'' # y @ rest
           \<and> 1 \<le> nd \<and> nd \<le> 31 \<and> d \<in> day_forms nd
           \<and> 1 \<le> nm \<and> nm \<le> 12 \<and> m \<in> numeral_forms nm
           \<and> ny \<le> 9999 \<and> y = pad4 ny"
proof -
  from assms obtain r1 r2 r3 r4 g1 g2 where
    m: "(d, r1) \<in> set (re_d s)" "(g1, r2) \<in> set (re_dot r1)" "(m, r3) \<in> set (re_m r2)"
       "(g2, r4) \<in> set (re_dot r3)" "(y, rest) \<in> set (re_Y r4)"
    unfolding format_regex_iff by blast
  from m(1) obtain nd where d: "s = d @ r1" "1 \<le> nd" "nd \<le> 31" "d \<in> day_forms nd"
    by (auto dest: re_d_sound)
  from m(3) obtain nm where mm: "r2 = m @ r3" "1 \<le> nm" "nm \<le> 12" "m \<in> numeral_forms nm"
    by (auto dest: re_m_sound)
  from m(5) obtain ny where y: "r4 = y @ rest" "ny \<le> 9999" "y = pad4 ny"
    by (auto dest: re_Y_sound)
  from m(2) m(4) have "r1 = CHR ''.'' # r2" "r3 = CHR ''.'' # r4"
    by (simp_all add: re_dot_iff)
  with d mm have "s = d @ CHR ''.'' # m @ CHR ''.'' # y @ rest" using y(1) by simp
  with d mm y show ?thesis by blast
qed

lemma format_regex_complete:
  assumes "1 \<le> nd" "nd \<le> 31" "d \<in> day_forms nd" "1 \<le> nm" "nm \<le> 12" "m \<in> numeral_forms nm"
  shows "((d, m, pad4 ny), rest) \<in> set (format_regex (d @ CHR ''.'' # m @ CHR ''.'' # pad4 ny @ rest))"
proof -
  let ?r4 = "pad4 ny @ rest"
  let ?r3 = "CHR ''.'' # ?r4"
  let ?r2 = "m @ ?r3"
  let ?r1 = "CHR ''.'' # ?r2"
  have "(d, ?r1) \<in> set (re_d (d @ ?r1))" using assms(1-3) by (rule re_d_complete)
  moreover have "(''.'', ?r2) \<in> set (re_dot ?r1)" by (simp add: re_dot_iff)
  moreover have "(m, ?r3) \<in> set (re_m ?r2)" using assms(4-6) by (rule re_m_complete)
  moreover have "(''.'', ?r4) \<in> set (re_dot ?r3)" by (simp add: re_dot_iff)
  moreover have "(pad4 ny, rest) \<in> set (re_Y ?r4)" by (rule re_Y_complete)
  ultimately show ?thesis unfolding format_regex_iff by blast
qed

lemma length_pad4: "length (pad4 n) = 4"
  by (simp add: pad4_def pad2_def)

lemma format_regex_unique:
  assumes a: "((d, m, y), rest) \<in> set (format_regex s)"
    and b: "((d', m', y'), rest') \<in> set (format_regex s)"
  shows "d = d' \<and> m = m' \<and> y = y' \<and> rest = rest'"
proof -
  from format_regex_sound [OF a] obtain nd nm ny where
    s: "s = d @ CHR ''.'' # m @ CHR ''.'' # y @ rest" and f: "d \<in> day_forms nd"
      "m \<in> numeral_forms nm" "y = pad4 ny"
    by blast
  from format_regex_sound [OF b] obtain nd' nm' ny' where
    s': "s = d' @ CHR ''.'' # m' @ CHR ''.'' # y' @ rest'" and f': "d' \<in> day_forms nd'"
      "m' \<in> numeral_forms nm'" "y' = pad4 ny'"
    by blast
  from s s' have e: "d @ CHR ''.'' # (m @ CHR ''.'' # y @ rest) = d' @ CHR ''.'' # (m' @ CHR ''.'' # y' @ rest')"
    by simp
  have 1: "d = d' \<and> m @ CHR ''.'' # y @ rest = m' @ CHR ''.'' # y' @ rest'"
    using no_dot_day_forms [OF f(1)] no_dot_day_forms [OF f'(1)] e by (rule cut_unique)
  then have e2: "m @ CHR ''.'' # (y @ rest) = m' @ CHR ''.'' # (y' @ rest')" by simp
  have 2: "m = m' \<and> y @ rest = y' @ rest'"
    using no_dot_numeral_forms [OF f(2)] no_dot_numeral_forms [OF f'(2)] e2 by (rule cut_unique)
  moreover have "length y = length y'" using f(3) f'(3) by (simp add: length_pad4)
  ultimately show ?thesis using 1 by simp
qed

lemma datetime_date_iff:
  "datetime_date y m d = Inr dt \<longleftrightarrow> valid_date y m d \<and> dt = \<lparr>year = y, month = m, day = d\<rparr>"
  by (auto simp: datetime_date_def valid_date_def)

lemma strptime_sound:
  assumes "strptime t = Inr dt"
  shows "date_token t (year dt) (month dt) (day dt)"
proof -
  from assms obtain d m y xs where fr: "format_regex t = ((d, m, y), []) # xs"
    and dd: "datetime_date (int_of_group y) (int_of_group m) (int_of_group d) = Inr dt"
    by (auto simp: strptime_def split: list.splits if_splits)
  from fr have "((d, m, y), []) \<in> set (format_regex t)" by simp
  from format_regex_sound [OF this] obtain nd nm ny where
    t: "t = d @ CHR ''.'' # m @ CHR ''.'' # y @ []" and n: "nd \<le> 31" "d \<in> day_forms nd"
      "nm \<le> 12" "m \<in> numeral_forms nm" "ny \<le> 9999" "y = pad4 ny"
    by blast
  from n have "int_of_group d = nd" "int_of_group m = nm" "int_of_group y = ny"
    by (simp_all add: int_of_group_day int_of_group_month int_of_group_pad4)
  with dd have "valid_date ny nm nd" "dt = \<lparr>year = ny, month = nm, day = nd\<rparr>"
    by (simp_all add: datetime_date_iff)
  moreover from t have "t = d @ ''.'' @ m @ ''.'' @ y" by simp
  ultimately show ?thesis using n unfolding date_token_def by auto
qed

lemma valid_date_bounds: "valid_date y m d \<Longrightarrow> 1 \<le> d \<and> d \<le> 31 \<and> 1 \<le> m \<and> m \<le> 12 \<and> y \<le> 9999"
  by (auto simp: valid_date_def days_in_month_def split: if_splits)

lemma strptime_complete:
  assumes "date_token t y m d"
  shows "strptime t = Inr \<lparr>year = y, month = m, day = d\<rparr>"
proof -
  from assms obtain dt mt where v: "valid_date y m d" and f: "dt \<in> day_forms d" "mt \<in> numeral_forms m"
    and t: "t = dt @ CHR ''.'' # mt @ CHR ''.'' # pad4 y @ []"
    unfolding date_token_def by auto
  from valid_date_bounds [OF v] have b: "1 \<le> d" "d \<le> 31" "1 \<le> m" "m \<le> 12" "y \<le> 9999"
    by simp_all
  have mem: "((dt, mt, pad4 y), []) \<in> set (format_regex t)"
    unfolding t using b f by (intro format_regex_complete) simp_all
  then obtain x xs where fr: "format_regex t = x # xs" by (cases "format_regex t") auto
  obtain d' m' y' rest' where x: "x = ((d', m', y'), rest')" by (cases x) auto
  with fr have "((d', m', y'), rest') \<in> set (format_regex t)" by simp
  with mem have "d' = dt \<and> m' = mt \<and> y' = pad4 y \<and> rest' = []"
    using format_regex_unique by blast
  with fr x have "format_regex t = ((dt, mt, pad4 y), []) # xs" by simp
  moreover have "int_of_group dt = d" "int_of_group mt = m" "int_of_group (pad4 y) = y"
    using f b by (simp_all add: int_of_group_day int_of_group_month int_of_group_pad4)
  ultimately show ?thesis using v by (simp add: strptime_def datetime_date_iff)
qed

section \<open>Cutting and searching strings\<close>

lemma find_sep_hyphen_first:
  "CHR ''-'' \<notin> set a \<Longrightarrow> find_sep '' - '' (a @ '' - '' @ b) = Some (a, b)"
proof (induction a)
  case Nil
  then show ?case by simp
next
  case (Cons c a)
  then have "\<not> prefix '' - '' (c # a @ '' - '' @ b)" by (cases a) auto
  with Cons show ?case by simp
qed

lemma find_sep_hyphen_none: "CHR ''-'' \<notin> set s \<Longrightarrow> find_sep '' - '' s = None"
proof (induction s)
  case Nil
  then show ?case by simp
next
  case (Cons c s)
  then have "\<not> prefix '' - '' (c # s)" by (cases s) auto
  with Cons show ?case by simp
qed

lemma find_sep_char_first: "c \<notin> set a \<Longrightarrow> find_sep [c] (a @ c # b) = Some (a, b)"
  by (induction a) auto

lemma find_sep_char_none: "c \<notin> set s \<Longrightarrow> find_sep [c] s = None"
  by (induction s) auto

lemma find_sep_char_Some: "find_sep [c] s = Some (a, b) \<Longrightarrow> c \<notin> set a \<and> s = a @ c # b"
  by (induction s arbitrary: a) (auto split: if_splits option.splits)

lemma find_sep_char_None: "find_sep [c] s = None \<Longrightarrow> c \<notin> set s"
  by (induction s) (auto split: if_splits option.splits)

lemma not_contains_von: "CHR ''v'' \<notin> set s \<Longrightarrow> \<not> contains ''von'' s"
  by (induction s) auto

lemma is_digit_cp: "is_digit c \<longleftrightarrow> 48 \<le> cp c \<and> cp c \<le> 57"
  by (simp add: is_digit_def in_range_def cp_lits)

lemma date_token_chars:
  assumes "date_token t y m d" "c \<in> set t"
  shows "is_digit c \<or> c = CHR ''.'' \<or> c = CHR '' ''"
  using assms unfolding date_token_def day_forms_def numeral_forms_def pad4_def pad2_def
  by (auto simp: is_digit_digit_char split: if_splits)

lemma date_token_no_hyphen: "date_token t y m d \<Longrightarrow> CHR ''-'' \<notin> set t"
  by (auto dest!: date_token_chars simp: is_digit_cp cp_lits)

lemma date_token_no_v: "date_token t y m d \<Longrightarrow> CHR ''v'' \<notin> set t"
  by (auto dest!: date_token_chars simp: is_digit_cp cp_lits)

lemma split_two_tokens:
  assumes "CHR ''-'' \<notin> set t1" "CHR ''-'' \<notin> set t2"
  shows "split_py '' - '' (t1 @ '' - '' @ t2) = [t1, t2]"
proof -
  have "split_py '' - '' t2 = [t2]"
    using assms(2) by (subst split_py.simps) (simp add: find_sep_hyphen_none)
  moreover have "find_sep '' - '' (t1 @ '' - '' @ t2) = Some (t1, t2)"
    using assms(1) by (rule find_sep_hyphen_first)
  ultimately show ?thesis
    by (subst split_py.simps) (simp del: append.simps)
qed

lemma split_py_space:
  "split_py '' '' s = (case find_sep '' '' s of None \<Rightarrow> [s] | Some (a, b) \<Rightarrow> a # split_py '' '' b)"
  by (subst split_py.simps) simp

lemma split_py_hyphen:
  "split_py '' - '' s = (case find_sep '' - '' s of None \<Rightarrow> [s] | Some (a, b) \<Rightarrow> a # split_py '' - '' b)"
  by (subst split_py.simps) simp

lemma split_space_cut:
  "CHR '' '' \<notin> set a \<Longrightarrow> split_py '' '' (a @ CHR '' '' # b) = a # split_py '' '' b"
  by (subst split_py_space) (simp add: find_sep_char_first)

lemma split_space_three:
  assumes "CHR '' '' \<notin> set a" "CHR '' '' \<notin> set b" "CHR '' '' \<notin> set t"
    and "rest = [] \<or> (\<exists>x. rest = CHR '' '' # x)"
  shows "\<exists>ps. split_py '' '' (a @ '' '' @ b @ '' '' @ t @ rest) = a # b # t # ps"
proof -
  have "\<exists>ps. split_py '' '' (t @ rest) = t # ps"
  proof (cases rest)
    case Nil
    then show ?thesis using assms(3) by (subst split_py_space) (simp add: find_sep_char_none)
  next
    case (Cons c x)
    with assms(4) have "rest = CHR '' '' # x" by simp
    then show ?thesis using assms(3) by (simp add: split_space_cut)
  qed
  then show ?thesis using assms(1,2) by (simp add: split_space_cut)
qed

lemma split_space_third:
  assumes "list_get (split_py '' '' r) 2 = Inr t"
  shows "\<exists>a b rest. r = a @ '' '' @ b @ '' '' @ t @ rest \<and> CHR '' '' \<notin> set a
           \<and> CHR '' '' \<notin> set b \<and> CHR '' '' \<notin> set t \<and> (rest = [] \<or> (\<exists>x. rest = CHR '' '' # x))"
proof (cases "find_sep '' '' r")
  case None
  then have "split_py '' '' r = [r]" by (subst split_py_space) simp
  with assms show ?thesis by (simp add: list_get_def)
next
  case (Some ab)
  then obtain a r1 where 1: "find_sep '' '' r = Some (a, r1)" by (cases ab) auto
  then have s1: "split_py '' '' r = a # split_py '' '' r1" by (subst split_py_space) simp
  from 1 have a: "CHR '' '' \<notin> set a" "r = a @ CHR '' '' # r1" by (auto dest: find_sep_char_Some)
  show ?thesis
  proof (cases "find_sep '' '' r1")
    case None
    then have "split_py '' '' r1 = [r1]" by (subst split_py_space) simp
    with assms s1 show ?thesis by (simp add: list_get_def)
  next
    case (Some bc)
    then obtain b r2 where 2: "find_sep '' '' r1 = Some (b, r2)" by (cases bc) auto
    then have s2: "split_py '' '' r1 = b # split_py '' '' r2" by (subst split_py_space) simp
    from 2 have b: "CHR '' '' \<notin> set b" "r1 = b @ CHR '' '' # r2" by (auto dest: find_sep_char_Some)
    show ?thesis
    proof (cases "find_sep '' '' r2")
      case None
      then have "split_py '' '' r2 = [r2]" by (subst split_py_space) simp
      with assms s1 s2 have "t = r2" by (simp add: list_get_def)
      moreover from None have "CHR '' '' \<notin> set r2" by (rule find_sep_char_None)
      ultimately have "r = a @ '' '' @ b @ '' '' @ t @ [] \<and> CHR '' '' \<notin> set a
           \<and> CHR '' '' \<notin> set b \<and> CHR '' '' \<notin> set t" using a b by simp
      then show ?thesis by blast
    next
      case (Some cd)
      then obtain c r3 where 3: "find_sep '' '' r2 = Some (c, r3)" by (cases cd) auto
      then have "split_py '' '' r2 = c # split_py '' '' r3" by (subst split_py_space) simp
      with assms s1 s2 have "t = c" by (simp add: list_get_def)
      moreover from 3 have "CHR '' '' \<notin> set c" "r2 = c @ CHR '' '' # r3"
        by (auto dest: find_sep_char_Some)
      ultimately have "r = a @ '' '' @ b @ '' '' @ t @ (CHR '' '' # r3) \<and> CHR '' '' \<notin> set a
           \<and> CHR '' '' \<notin> set b \<and> CHR '' '' \<notin> set t" using a b by simp
      then show ?thesis by blast
    qed
  qed
qed

lemma split_hyphen_cut:
  assumes "CHR ''-'' \<notin> set a"
  shows "split_py '' - '' (a @ '' - '' @ b) = a # split_py '' - '' b"
proof -
  have "find_sep '' - '' (a @ '' - '' @ b) = Some (a, b)"
    using assms by (rule find_sep_hyphen_first)
  then show ?thesis
    by (subst split_py.simps) (simp del: append.simps)
qed

lemma split_hyphen_first_two:
  assumes "list_get (split_py '' - '' r) 0 = Inr t1" "list_get (split_py '' - '' r) 1 = Inr t2"
  shows "hyphen_pair r t1 t2"
proof (cases "find_sep '' - '' r")
  case None
  then have "split_py '' - '' r = [r]" by (subst split_py_hyphen) simp
  with assms show ?thesis by (simp add: list_get_def)
next
  case (Some ab)
  then obtain a r1 where 1: "find_sep '' - '' r = Some (a, r1)" by (cases ab) auto
  then have s1: "split_py '' - '' r = a # split_py '' - '' r1" by (subst split_py_hyphen) simp
  with assms(1) have t1: "t1 = a" by (simp add: list_get_def)
  from 1 have r: "r = a @ '' - '' @ r1" by (rule find_sep_decomp)
  show ?thesis
  proof (cases "find_sep '' - '' r1")
    case None
    then have "split_py '' - '' r1 = [r1]" by (subst split_py_hyphen) simp
    with assms(2) s1 have "t2 = r1" by (simp add: list_get_def)
    with r t1 have "r = t1 @ '' - '' @ t2" by simp
    then show ?thesis unfolding hyphen_pair_def by (rule disjI1)
  next
    case (Some bc)
    then obtain b r2 where 2: "find_sep '' - '' r1 = Some (b, r2)" by (cases bc) auto
    then have "split_py '' - '' r1 = b # split_py '' - '' r2" by (subst split_py_hyphen) simp
    with assms(2) s1 have "t2 = b" by (simp add: list_get_def)
    moreover from 2 have "r1 = b @ '' - '' @ r2" by (rule find_sep_decomp)
    ultimately have "r = t1 @ '' - '' @ t2 @ '' - '' @ r2" using r t1 by simp
    then have "\<exists>more. r = t1 @ '' - '' @ t2 @ '' - '' @ more" ..
    then show ?thesis unfolding hyphen_pair_def by (rule disjI2)
  qed
qed

lemma hyphen_pair_split:
  assumes "hyphen_pair r t1 t2" "CHR ''-'' \<notin> set t1" "CHR ''-'' \<notin> set t2"
  shows "list_get (split_py '' - '' r) 0 = Inr t1 \<and> list_get (split_py '' - '' r) 1 = Inr t2"
proof -
  from assms(1) consider (two) "r = t1 @ '' - '' @ t2"
    | (more) more where "r = t1 @ '' - '' @ t2 @ '' - '' @ more"
    unfolding hyphen_pair_def by blast
  then show ?thesis
  proof cases
    case two
    have "split_py '' - '' (t1 @ '' - '' @ t2) = [t1, t2]"
      using assms(2,3) by (rule split_two_tokens)
    with two have "split_py '' - '' r = [t1, t2]" by (simp only:)
    then show ?thesis by (simp add: list_get_def)
  next
    case more
    have "split_py '' - '' (t2 @ '' - '' @ more) = t2 # split_py '' - '' more"
      using assms(3) by (rule split_hyphen_cut)
    moreover have "split_py '' - '' (t1 @ '' - '' @ (t2 @ '' - '' @ more))
        = t1 # split_py '' - '' (t2 @ '' - '' @ more)"
      using assms(2) by (rule split_hyphen_cut)
    ultimately have "split_py '' - '' r = t1 # t2 # split_py '' - '' more"
      using more by (simp only:)
    then show ?thesis by (simp add: list_get_def)
  qed
qed

section \<open>Years in decimal\<close>

lemma decimal_lt10: "n < 10 \<Longrightarrow> decimal n = [digit_char n]"
  by (subst decimal.simps) simp

lemma decimal_ge10: "10 \<le> n \<Longrightarrow> decimal n = decimal (n div 10) @ [digit_char n]"
  by (subst decimal.simps) simp

lemma decimal_not_Nil: "decimal n \<noteq> []"
  by (subst decimal.simps) simp

lemma digits_value_snoc: "digits_value (xs @ [c]) = 10 * digits_value xs + (cp c - 48)"
  by (simp add: digits_value_def)

lemma digits_value_decimal: "digits_value (decimal n) = n"
proof (induction n rule: decimal.induct)
  case (1 n)
  show ?case
  proof (cases "n < 10")
    case True
    then show ?thesis by (simp add: decimal_lt10 digits_value_def cp_digit_char_val)
  next
    case False
    with 1 have "digits_value (decimal (n div 10)) = n div 10" by simp
    with False show ?thesis
      by (simp add: decimal_ge10 digits_value_snoc cp_digit_char_val)
  qed
qed

lemma digits_decimal: "list_all is_digit (decimal n)"
proof (induction n rule: decimal.induct)
  case (1 n)
  show ?case
  proof (cases "n < 10")
    case True
    then show ?thesis by (simp add: decimal_lt10 is_digit_digit_char)
  next
    case False
    with 1 have "list_all is_digit (decimal (n div 10))" by simp
    with False show ?thesis by (simp add: decimal_ge10 is_digit_digit_char)
  qed
qed

lemma hd_decimal: "1 \<le> n \<Longrightarrow> hd (decimal n) \<noteq> CHR ''0''"
proof (induction n rule: decimal.induct)
  case (1 n)
  show ?case
  proof (cases "n < 10")
    case True
    with "1.prems" have "cp (digit_char n) \<noteq> 48" by (simp add: cp_digit_char)
    then have "digit_char n \<noteq> CHR ''0''" by (auto simp: cp_lits)
    with True show ?thesis by (simp add: decimal_lt10)
  next
    case False
    then have "1 \<le> n div 10" by simp
    with 1 False have "hd (decimal (n div 10)) \<noteq> CHR ''0''" by simp
    with False show ?thesis by (simp add: decimal_ge10 decimal_not_Nil)
  qed
qed

lemma length_decimal:
  assumes "n \<le> 9999"
  shows "length (decimal n) \<le> 4"
proof -
  have "n div 10 div 10 div 10 < 10" using assms by simp
  then have "decimal (n div 10 div 10 div 10) = [digit_char (n div 10 div 10 div 10)]"
    by (rule decimal_lt10)
  then show ?thesis
    by (simp add: decimal.simps [of n] decimal.simps [of "n div 10"]
        decimal.simps [of "n div 10 div 10"])
qed

lemma decimal_pad4:
  assumes "1000 \<le> n" "n \<le> 9999"
  shows "decimal n = pad4 n"
proof -
  have a: "10 \<le> n" "10 \<le> n div 10" "10 \<le> n div 10 div 10" "n div 10 div 10 div 10 < 10"
    using assms by simp_all
  have h: "n div 100 = n div 10 div 10" using div_mult2_eq [of n 10 10] by simp
  have "decimal n = [digit_char (n div 10 div 10 div 10), digit_char (n div 10 div 10),
      digit_char (n div 10), digit_char n]"
    using a by (simp add: decimal_ge10 decimal_lt10)
  then show ?thesis by (simp add: pad4_def pad2_def h)
qed

lemma strftime_ymd:
  "strftime \<lparr>year = y, month = m, day = d\<rparr> = year_month_day y m d"
  by (simp add: strftime_def year_month_day_def)

lemma year_month_day_iso:
  "1000 \<le> y \<Longrightarrow> valid_date y m d \<Longrightarrow> year_month_day y m d = iso_date y m d"
  by (simp add: year_month_day_def iso_date_def decimal_pad4 valid_date_def)

lemma date_token_strict: "valid_date y m d \<Longrightarrow> date_token (dd_mm_yyyy y m d) y m d"
  by (auto simp: date_token_def dd_mm_yyyy_def day_forms_def numeral_forms_def)

lemma date_token_literal:
  "valid_date y m d \<Longrightarrow> dd_mm_yyyy y m d = t \<Longrightarrow> date_token t y m d"
  using date_token_strict by blast

lemma third_piece_get: "third_piece r t \<Longrightarrow> list_get (split_py '' '' r) 2 = Inr t"
proof -
  assume "third_piece r t"
  then obtain a b rest where r: "r = a @ '' '' @ b @ '' '' @ t @ rest"
    and n: "CHR '' '' \<notin> set a" "CHR '' '' \<notin> set b" "CHR '' '' \<notin> set t"
      "rest = [] \<or> (\<exists>x. rest = CHR '' '' # x)"
    unfolding third_piece_def by blast
  from split_space_three [OF n] obtain ps where
    "split_py '' '' (a @ '' '' @ b @ '' '' @ t @ rest) = a # b # t # ps" by blast
  with r show ?thesis by (simp add: list_get_def)
qed

lemma third_piece_iff: "third_piece r t \<longleftrightarrow> list_get (split_py '' '' r) 2 = Inr t"
proof
  assume "third_piece r t"
  then show "list_get (split_py '' '' r) 2 = Inr t" by (rule third_piece_get)
next
  assume "list_get (split_py '' '' r) 2 = Inr t"
  from split_space_third [OF this] show "third_piece r t" unfolding third_piece_def .
qed

section \<open>The validity range: what the parse returns\<close>

lemma single_bound_parse:
  assumes "contains ''von'' r" and "third_piece r t" and "date_token t y m d"
  shows "parse_validity_range r = Inr (year_month_day y m d, [])"
  unfolding parse_validity_range_def
  using assms(1) third_piece_get [OF assms(2)] strptime_complete [OF assms(3)]
  by (simp add: strftime_ymd)

lemma double_bound_parse:
  assumes "\<not> contains ''von'' r" and "hyphen_pair r t1 t2"
    and "date_token t1 y1 m1 d1" and "date_token t2 y2 m2 d2"
  shows "parse_validity_range r = Inr (year_month_day y1 m1 d1, year_month_day y2 m2 d2)"
proof -
  have "list_get (split_py '' - '' r) 0 = Inr t1 \<and> list_get (split_py '' - '' r) 1 = Inr t2"
    using assms(2) date_token_no_hyphen [OF assms(3)] date_token_no_hyphen [OF assms(4)]
    by (rule hyphen_pair_split)
  then show ?thesis
    unfolding parse_validity_range_def
    using assms(1) strptime_complete [OF assms(3)] strptime_complete [OF assms(4)]
    by (simp add: strftime_ymd)
qed

lemma two_tokens_no_marker:
  assumes "date_token t1 y1 m1 d1" and "date_token t2 y2 m2 d2"
  shows "\<not> contains ''von'' (t1 @ '' - '' @ t2)"
proof -
  have "CHR ''v'' \<notin> set (t1 @ '' - '' @ t2)"
    using date_token_no_v [OF assms(1)] date_token_no_v [OF assms(2)] by simp
  then show ?thesis by (rule not_contains_von)
qed

text \<open>
  Claim C2, as amended. For two date tokens \<open>t1\<close> and \<open>t2\<close>, written
  day.month.year, that denote calendar dates, the text \<open>t1 - t2\<close> with the hyphen
  between single spaces parses to the two dates written year-month-day, with
  the month and the day padded with zeros to two digits and the year in decimal
  without leading zeros. For years from 1000 on these are the ISO dates
  YYYY-MM-DD. The strict form DD.MM.YYYY is one of the token forms
  (\<open>date_token_strict\<close>).
\<close>

theorem double_bound_range:
  assumes "date_token t1 y1 m1 d1" and "date_token t2 y2 m2 d2"
  shows "parse_validity_range (t1 @ '' - '' @ t2)
           = Inr (year_month_day y1 m1 d1, year_month_day y2 m2 d2)
       \<and> (1000 \<le> y1 \<and> 1000 \<le> y2 \<longrightarrow>
            parse_validity_range (t1 @ '' - '' @ t2) = Inr (iso_date y1 m1 d1, iso_date y2 m2 d2))"
proof -
  have "hyphen_pair (t1 @ '' - '' @ t2) t1 t2" unfolding hyphen_pair_def by (rule disjI1) (rule refl)
  with two_tokens_no_marker [OF assms]
  have p: "parse_validity_range (t1 @ '' - '' @ t2)
      = Inr (year_month_day y1 m1 d1, year_month_day y2 m2 d2)"
    using assms by (rule double_bound_parse)
  have v: "valid_date y1 m1 d1" "valid_date y2 m2 d2" using assms by (simp_all add: date_token_def)
  show ?thesis using p v by (simp add: year_month_day_iso)
qed

theorem double_bound_range_witness:
  "date_token ''01.06.2024'' 2024 6 1 \<and> date_token ''15.06.2024'' 2024 6 15
   \<and> parse_validity_range ''01.06.2024 - 15.06.2024'' = Inr (''2024-06-01'', ''2024-06-15'')"
proof -
  have a: "date_token ''01.06.2024'' 2024 6 1"
    by (rule date_token_literal)
      (simp_all add: valid_date_def days_in_month_def dd_mm_yyyy_def pad2_def pad4_def
        digit_char_def char_of_digits)
  have b: "date_token ''15.06.2024'' 2024 6 15"
    by (rule date_token_literal)
      (simp_all add: valid_date_def days_in_month_def dd_mm_yyyy_def pad2_def pad4_def
        digit_char_def char_of_digits)
  from double_bound_range [OF a b, THEN conjunct2]
  have "parse_validity_range (''01.06.2024'' @ '' - '' @ ''15.06.2024'')
      = Inr (iso_date 2024 6 1, iso_date 2024 6 15)"
    by simp
  then show ?thesis
    using a b by (simp add: iso_date_def pad2_def pad4_def digit_char_def char_of_digits)
qed

text \<open>
  Claim C2, as stated, fails for a year below 1000: the two tokens of
  \<open>01.06.0999 - 15.06.0999\<close> are in the form DD.MM.YYYY, and the parse yields
  \<open>999-06-01\<close> and \<open>999-06-15\<close>, not the dates with the year in four digits.
\<close>

theorem double_bound_counterexample:
  "strict_token ''01.06.0999'' \<and> strict_token ''15.06.0999''
   \<and> parse_validity_range ''01.06.0999 - 15.06.0999'' = Inr (''999-06-01'', ''999-06-15'')
   \<and> iso_date 999 6 1 = ''0999-06-01'' \<and> iso_date 999 6 15 = ''0999-06-15''"
  by code_simp

text \<open>
  Claim C1, as amended. For a validity text that contains the marker \<open>von\<close> and
  whose third piece between single spaces is a date token, the parse yields
  that date written year-month-day as \<open>valid_from\<close>, which is the ISO date
  YYYY-MM-DD for a year from 1000 on, and the empty string as \<open>valid_to\<close>.
\<close>

theorem single_bound_range:
  assumes "contains ''von'' r" and "third_piece r t" and "date_token t y m d"
  shows "parse_validity_range r = Inr (year_month_day y m d, [])
       \<and> (1000 \<le> y \<longrightarrow> parse_validity_range r = Inr (iso_date y m d, []))"
proof -
  have "valid_date y m d" using assms(3) by (simp add: date_token_def)
  with single_bound_parse [OF assms] show ?thesis by (simp add: year_month_day_iso)
qed

theorem single_bound_range_witness:
  "contains ''von'' ''von Montag 01.06.2024'' \<and> third_piece ''von Montag 01.06.2024'' ''01.06.2024''
   \<and> date_token ''01.06.2024'' 2024 6 1
   \<and> parse_validity_range ''von Montag 01.06.2024'' = Inr (''2024-06-01'', [])"
proof -
  have a: "contains ''von'' ''von Montag 01.06.2024''" by simp
  have b: "third_piece ''von Montag 01.06.2024'' ''01.06.2024''"
    unfolding third_piece_iff by (simp add: split_py.simps list_get_def)
  have c: "date_token ''01.06.2024'' 2024 6 1"
    by (rule date_token_literal)
      (simp_all add: valid_date_def days_in_month_def dd_mm_yyyy_def pad2_def pad4_def
        digit_char_def char_of_digits)
  from single_bound_range [OF a b c, THEN conjunct2]
  have "parse_validity_range ''von Montag 01.06.2024'' = Inr (iso_date 2024 6 1, [])"
    by simp
  then show ?thesis
    using a b c by (simp add: iso_date_def pad2_def pad4_def digit_char_def char_of_digits)
qed

text \<open>
  Claim C1, as stated, fails: in \<open>von 01.06.2024\<close> the marker is followed by one
  date token, and the parse raises \<open>IndexError\<close>, since the text has two pieces.
\<close>

theorem single_bound_counterexample:
  "contains ''von'' ''von 01.06.2024'' \<and> date_token ''01.06.2024'' 2024 6 1
   \<and> parse_validity_range (''von'' @ '' '' @ ''01.06.2024'') = Inl IndexError"
proof -
  have "date_token ''01.06.2024'' 2024 6 1"
    by (rule date_token_literal)
      (simp_all add: valid_date_def days_in_month_def dd_mm_yyyy_def pad2_def pad4_def
        digit_char_def char_of_digits)
  moreover have "parse_validity_range ''von 01.06.2024'' = Inl IndexError"
    by (simp add: parse_validity_range_def split_py.simps list_get_def)
  ultimately show ?thesis by simp
qed

lemma parse_success_shape:
  assumes "parse_validity_range r = Inr (vf, vt)"
  shows "(contains ''von'' r \<and> (\<exists>t y m d. third_piece r t \<and> date_token t y m d))
       \<or> (\<not> contains ''von'' r
           \<and> (\<exists>t1 t2 y1 m1 d1 y2 m2 d2.
                 hyphen_pair r t1 t2 \<and> date_token t1 y1 m1 d1 \<and> date_token t2 y2 m2 d2))"
proof (cases "contains ''von'' r")
  case True
  with assms obtain t dt where "list_get (split_py '' '' r) 2 = Inr t" "strptime t = Inr dt"
    by (auto simp: parse_validity_range_def split: sum.splits)
  then have "third_piece r t" "date_token t (year dt) (month dt) (day dt)"
    by (simp_all add: third_piece_iff strptime_sound)
  with True show ?thesis by blast
next
  case False
  with assms obtain t1 t2 dt1 dt2 where
    "list_get (split_py '' - '' r) 0 = Inr t1" "strptime t1 = Inr dt1"
    "list_get (split_py '' - '' r) 1 = Inr t2" "strptime t2 = Inr dt2"
    by (auto simp: parse_validity_range_def Let_def split: sum.splits)
  then have "hyphen_pair r t1 t2" "date_token t1 (year dt1) (month dt1) (day dt1)"
    "date_token t2 (year dt2) (month dt2) (day dt2)"
    by (simp_all add: split_hyphen_first_two strptime_sound)
  with False show ?thesis by blast
qed

lemma parse_fails_iff:
  "isl (parse_validity_range r) \<longleftrightarrow>
     (contains ''von'' r \<and> \<not> (\<exists>t y m d. third_piece r t \<and> date_token t y m d))
   \<or> (\<not> contains ''von'' r
       \<and> \<not> (\<exists>t1 t2 y1 m1 d1 y2 m2 d2.
               hyphen_pair r t1 t2 \<and> date_token t1 y1 m1 d1 \<and> date_token t2 y2 m2 d2))"
  (is "?fails \<longleftrightarrow> ?bad")
proof
  assume f: ?fails
  show ?bad
  proof (rule ccontr)
    assume "\<not> ?bad"
    then consider (single) t y m d where "contains ''von'' r" "third_piece r t" "date_token t y m d"
      | (double) t1 t2 y1 m1 d1 y2 m2 d2 where "\<not> contains ''von'' r" "hyphen_pair r t1 t2"
          "date_token t1 y1 m1 d1" "date_token t2 y2 m2 d2"
      by blast
    then show False
    proof cases
      case single
      from single_bound_parse [OF this] f show False by simp
    next
      case double
      from double_bound_parse [OF this] f show False by simp
    qed
  qed
next
  assume b: ?bad
  show ?fails
  proof (cases "parse_validity_range r")
    case (Inl e)
    then show ?thesis by simp
  next
    case (Inr p)
    then have "parse_validity_range r = Inr (fst p, snd p)" by simp
    from parse_success_shape [OF this] b show ?thesis by blast
  qed
qed

lemma parse_flyer_range_failed:
  assumes "h2 el = Some t" "img el = Some thumb" "span el = Some x"
    and "parse_validity_range (strip x) = Inl e"
  shows "parse_flyer w s el name = s\<lparr>logged := logged s @ [FlyerFailed name e]\<rparr>"
  using assms by (simp add: parse_flyer_def flyer_fields_def)

text \<open>
  Claim C3, as amended. The parse fails with an exception exactly for the
  texts with the marker whose third piece between single spaces is missing or
  is no date token, and for the texts without the marker that are not two date
  tokens around the hyphen delimiter, alone or followed by a further delimiter.
  A date token is what \<open>date_token\<close> describes: the day in one or two digits or
  as a space and a digit, the month in one or two digits, the year in four,
  for a date of the calendar; so month 13 and a day that is no number fail,
  and so does a token with text after the year. For a flyer element with
  title and image whose range text fails so, \<open>parse_flyer\<close> logs the exception
  and appends no record.
\<close>

theorem malformed_range_fails:
  "(isl (parse_validity_range r) \<longleftrightarrow>
      (contains ''von'' r \<and> \<not> (\<exists>t y m d. third_piece r t \<and> date_token t y m d))
    \<or> (\<not> contains ''von'' r
        \<and> \<not> (\<exists>t1 t2 y1 m1 d1 y2 m2 d2.
                hyphen_pair r t1 t2 \<and> date_token t1 y1 m1 d1 \<and> date_token t2 y2 m2 d2)))
   \<and> (isl (parse_validity_range r) \<and> h2 el = Some title_text \<and> img el = Some thumb
        \<and> span el = Some x \<and> strip x = r \<longrightarrow>
        (\<exists>e. parse_validity_range r = Inl e
           \<and> parse_flyer w s el name = s\<lparr>logged := logged s @ [FlyerFailed name e]\<rparr>))"
proof -
  have "\<exists>e. parse_validity_range r = Inl e
           \<and> parse_flyer w s el name = s\<lparr>logged := logged s @ [FlyerFailed name e]\<rparr>"
    if f: "isl (parse_validity_range r)" and el: "h2 el = Some title_text" "img el = Some thumb"
      "span el = Some x" "strip x = r"
  proof -
    from f obtain e where e: "parse_validity_range r = Inl e"
      by (cases "parse_validity_range r") auto
    from e el(4) have "parse_validity_range (strip x) = Inl e" by simp
    with el(1-3) have "parse_flyer w s el name = s\<lparr>logged := logged s @ [FlyerFailed name e]\<rparr>"
      by (rule parse_flyer_range_failed)
    with e show ?thesis by blast
  qed
  with parse_fails_iff [of r] show ?thesis by blast
qed

theorem malformed_range_fails_witness:
  "contains ''von'' ''von Montag 01.13.2024''
   \<and> \<not> (\<exists>t y m d. third_piece ''von Montag 01.13.2024'' t \<and> date_token t y m d)
   \<and> isl (parse_validity_range ''von Montag 01.13.2024'')
   \<and> \<not> contains ''von'' ''01.06.2024 - 15.06.20245''
   \<and> \<not> (\<exists>t1 t2 y1 m1 d1 y2 m2 d2. hyphen_pair ''01.06.2024 - 15.06.20245'' t1 t2
           \<and> date_token t1 y1 m1 d1 \<and> date_token t2 y2 m2 d2)
   \<and> isl (parse_validity_range ''01.06.2024 - 15.06.20245'')
   \<and> parse_flyer mixed_world (FlyerParser_init ''https://site'')
         (demo_flyer\<lparr>span := Some '' von Montag 01.13.2024 ''\<rparr>) ''Alpha''
       = (FlyerParser_init ''https://site'')\<lparr>logged := [FlyerFailed ''Alpha'' ValueError]\<rparr>"
proof -
  let ?r = "''von Montag 01.13.2024''"
  let ?q = "''01.06.2024 - 15.06.20245''"
  let ?el = "demo_flyer\<lparr>span := Some '' von Montag 01.13.2024 ''\<rparr>"
  let ?s = "FlyerParser_init ''https://site''"
  have a: "contains ''von'' ?r" by simp
  have sp: "list_get (split_py '' '' ?r) 2 = Inr ''01.13.2024''"
    by (simp add: split_py.simps list_get_def)
  have bad: "strptime ''01.13.2024'' = Inl ValueError" by code_simp
  have b: "\<not> (\<exists>t y m d. third_piece ?r t \<and> date_token t y m d)"
  proof
    assume "\<exists>t y m d. third_piece ?r t \<and> date_token t y m d"
    then obtain t y m d where "third_piece ?r t" "date_token t y m d" by blast
    with sp have "date_token ''01.13.2024'' y m d" by (simp add: third_piece_iff)
    from strptime_complete [OF this] bad show False by simp
  qed
  have c: "\<not> contains ''von'' ?q" by simp
  have sq: "split_py '' - '' ?q = [''01.06.2024'', ''15.06.20245'']"
    by (simp add: split_py.simps)
  have bad2: "strptime ''15.06.20245'' = Inl ValueError" by code_simp
  have d: "\<not> (\<exists>t1 t2 y1 m1 d1 y2 m2 d2. hyphen_pair ?q t1 t2
           \<and> date_token t1 y1 m1 d1 \<and> date_token t2 y2 m2 d2)"
  proof
    assume "\<exists>t1 t2 y1 m1 d1 y2 m2 d2. hyphen_pair ?q t1 t2
           \<and> date_token t1 y1 m1 d1 \<and> date_token t2 y2 m2 d2"
    then obtain t1 t2 y1 m1 d1 y2 m2 d2 where h: "hyphen_pair ?q t1 t2"
      and t: "date_token t1 y1 m1 d1" "date_token t2 y2 m2 d2" by blast
    from hyphen_pair_split [OF h date_token_no_hyphen [OF t(1)] date_token_no_hyphen [OF t(2)]] sq
    have "t2 = ''15.06.20245''" by (simp add: list_get_def)
    with t(2) have "date_token ''15.06.20245'' y2 m2 d2" by simp
    from strptime_complete [OF this] bad2 show False by simp
  qed
  note inst = malformed_range_fails [of ?r ?el "'' Angebote der Woche ''"
      "\<lparr>src = Some ''https://site/a.jpg'', data_src = None\<rparr>" "'' von Montag 01.13.2024 ''"
      mixed_world ?s "''Alpha''"]
  have f: "isl (parse_validity_range ?r)" using inst a b by blast
  have g: "isl (parse_validity_range ?q)"
    using malformed_range_fails [of ?q ?el "'' Angebote der Woche ''"
      "\<lparr>src = Some ''https://site/a.jpg'', data_src = None\<rparr>" "'' von Montag 01.13.2024 ''"
      mixed_world ?s "''Alpha''"] c d by blast
  have v: "parse_validity_range ?r = Inl ValueError"
    using a sp bad by (simp add: parse_validity_range_def)
  have st: "strip '' von Montag 01.13.2024 '' = ?r" by code_simp
  have el: "h2 ?el = Some '' Angebote der Woche ''"
    "img ?el = Some \<lparr>src = Some ''https://site/a.jpg'', data_src = None\<rparr>"
    "span ?el = Some '' von Montag 01.13.2024 ''"
    by (simp_all add: demo_flyer_def)
  from inst f el st obtain e where "parse_validity_range ?r = Inl e"
    "parse_flyer mixed_world ?s ?el ''Alpha'' = ?s\<lparr>logged := logged ?s @ [FlyerFailed ''Alpha'' e]\<rparr>"
    by blast
  with v have "parse_flyer mixed_world ?s ?el ''Alpha'' = ?s\<lparr>logged := [FlyerFailed ''Alpha'' ValueError]\<rparr>"
    by (simp add: FlyerParser_init_def)
  with a b f c d g show ?thesis by blast
qed

text \<open>
  Claim C3, as stated, fails for tokens that are not in the form DD.MM.YYYY
  and that the program accepts: \<open>5.6.2024 - 15.6.2024\<close> has neither the marker
  nor two tokens of that form, and the parse yields the two dates.
\<close>

theorem malformed_range_counterexample:
  "\<not> contains ''von'' ''5.6.2024 - 15.6.2024''
   \<and> \<not> strict_token ''5.6.2024'' \<and> \<not> strict_token ''15.6.2024''
   \<and> parse_validity_range ''5.6.2024 - 15.6.2024'' = Inr (''2024-06-05'', ''2024-06-15'')"
  by code_simp

section \<open>One flyer\<close>

lemma flyer_fields_fails_iff: "isl (flyer_fields el) \<longleftrightarrow> processing_fails el"
  by (auto simp: flyer_fields_def processing_fails_def split: option.splits sum.splits)

lemma flyer_record_None_iff: "flyer_record el name time = None \<longleftrightarrow> processing_fails el"
  unfolding flyer_fields_fails_iff [symmetric]
  by (cases "flyer_fields el") (auto simp: flyer_record_def)

lemma parse_flyer_cases:
  "parse_flyer w s el name =
     (case flyer_record el name (now w (clock_reads s)) of
        None \<Rightarrow> s\<lparr>logged := logged s @ [FlyerFailed name (projl (flyer_fields el))]\<rparr>
      | Some r \<Rightarrow> s\<lparr>parsed_flyers := parsed_flyers s @ [r], clock_reads := Suc (clock_reads s)\<rparr>)"
  by (cases "flyer_fields el") (auto simp: parse_flyer_def flyer_record_def)

lemma parse_flyer_base_url [simp]: "base_url (parse_flyer w s el name) = base_url s"
  by (simp add: parse_flyer_cases split: option.splits)

lemma parse_flyer_driver [simp]: "driver (parse_flyer w s el name) = driver s"
  by (simp add: parse_flyer_cases split: option.splits)

lemma parse_flyer_shops_logged [simp]:
  "shops_logged (logged (parse_flyer w s el name)) = shops_logged (logged s)"
  by (simp add: parse_flyer_cases shops_logged_def map_filter_def split: option.splits)

lemma parse_flyer_fails:
  "processing_fails el \<Longrightarrow>
     parsed_flyers (parse_flyer w s el name) = parsed_flyers s
     \<and> clock_reads (parse_flyer w s el name) = clock_reads s"
  using flyer_record_None_iff [of el name "now w (clock_reads s)"]
  by (simp add: parse_flyer_cases)

lemma parse_flyer_succeeds:
  "\<not> processing_fails el \<Longrightarrow>
     map Some (parsed_flyers (parse_flyer w s el name))
       = map Some (parsed_flyers s) @ [flyer_record el name (now w (clock_reads s))]
     \<and> clock_reads (parse_flyer w s el name) = Suc (clock_reads s)"
  using flyer_record_None_iff [of el name "now w (clock_reads s)"]
  by (auto simp: parse_flyer_cases split: option.splits)

section \<open>The flyers of one shop\<close>

lemma flyers_loop_base_url [simp]: "base_url (flyers_loop w name s flyers) = base_url s"
  by (induction flyers arbitrary: s) simp_all

lemma flyers_loop_driver [simp]: "driver (flyers_loop w name s flyers) = driver s"
  by (induction flyers arbitrary: s) simp_all

lemma flyers_loop_shops_logged [simp]:
  "shops_logged (logged (flyers_loop w name s flyers)) = shops_logged (logged s)"
  by (induction flyers arbitrary: s) simp_all

lemma flyers_loop_records:
  "map Some (parsed_flyers (flyers_loop w name s flyers))
     = map Some (parsed_flyers s)
       @ map (\<lambda>(i, el). flyer_record el name (now w i))
           (enumerate (clock_reads s) (filter (\<lambda>el. \<not> processing_fails el) flyers))"
proof (induction flyers arbitrary: s)
  case Nil
  then show ?case by simp
next
  case (Cons el flyers)
  show ?case
  proof (cases "processing_fails el")
    case True
    with Cons [of "parse_flyer w s el name"] show ?thesis
      by (simp add: parse_flyer_fails)
  next
    case False
    with Cons [of "parse_flyer w s el name"] show ?thesis
      by (simp add: parse_flyer_succeeds)
  qed
qed

section \<open>One shop\<close>

lemma shop_found:
  assumes "render w (base_url s @ path) = Inr flyers"
  shows "parse_category_shop w s (Some path) name =
           (let s2 = flyers_loop w name (s\<lparr>driver := driver s @ [Navigate (base_url s @ path)]\<rparr>) flyers
            in (s2\<lparr>logged := logged s2 @ [ShopDone name (length flyers)]\<rparr>, None))"
  using assms by (simp add: parse_category_shop_def Let_def)

lemma shop_timeout:
  assumes "render w (base_url s @ path) = Inl TimeoutException"
  shows "parse_category_shop w s (Some path) name =
           (s\<lparr>driver := driver s @ [Navigate (base_url s @ path)],
              logged := logged s @ [FlyersNotFound name]\<rparr>, None)"
  using assms by (simp add: parse_category_shop_def Let_def)

text \<open>
  Claim C4. When the flyer elements of a shop are found, the records appended
  for the shop are those of the elements whose processing does not fail (no
  missing title, image or range sub-element and no date-parse failure), one
  for each, in the order of the elements; the elements whose processing fails
  add nothing, and no exception leaves the method.
\<close>

theorem failed_flyers_dropped:
  assumes "render w (base_url s @ path) = Inr flyers"
  shows "map Some (parsed_flyers (fst (parse_category_shop w s (Some path) name)))
           = map Some (parsed_flyers s)
             @ map (\<lambda>(i, el). flyer_record el name (now w i))
                 (enumerate (clock_reads s) (filter (\<lambda>el. \<not> processing_fails el) flyers))
       \<and> snd (parse_category_shop w s (Some path) name) = None"
  using flyers_loop_records [of w name "s\<lparr>driver := driver s @ [Navigate (base_url s @ path)]\<rparr>" flyers]
  by (simp add: shop_found [OF assms] Let_def)

lemma shop_base_url [simp]: "base_url (fst (parse_category_shop w s shop name)) = base_url s"
  by (simp add: parse_category_shop_def Let_def split: option.splits sum.splits)

lemma shop_driver:
  "\<exists>urls. driver (fst (parse_category_shop w s shop name)) = driver s @ map Navigate urls"
proof (cases shop)
  case None
  have "driver s = driver s @ map Navigate []" by simp
  with None show ?thesis unfolding parse_category_shop_def by (simp del: append_Nil2)
next
  case (Some path)
  have "driver (fst (parse_category_shop w s shop name))
          = driver s @ map Navigate [base_url s @ path]"
    using Some by (simp add: parse_category_shop_def Let_def split: sum.splits)
  then show ?thesis by blast
qed

section \<open>The loop over the shops\<close>

lemma shops_loop_base_url [simp]: "base_url (fst (shops_loop w s links)) = base_url s"
proof (induction links arbitrary: s)
  case Nil
  then show ?case by simp
next
  case (Cons l links)
  obtain s' exc where p: "parse_category_shop w s (get_attr l ''href'') (get_text l) = (s', exc)"
    by (cases "parse_category_shop w s (get_attr l ''href'') (get_text l)")
  then have "base_url s' = base_url s"
    using shop_base_url [of w s "get_attr l ''href''" "get_text l"] by simp
  with p Cons [of s'] show ?case by (cases exc) simp_all
qed

lemma shops_loop_driver:
  "\<exists>urls. driver (fst (shops_loop w s links)) = driver s @ map Navigate urls"
proof (induction links arbitrary: s)
  case Nil
  have "driver s = driver s @ map Navigate []" by simp
  then show ?case by (simp del: append_Nil2)
next
  case (Cons l links)
  obtain s' exc where p: "parse_category_shop w s (get_attr l ''href'') (get_text l) = (s', exc)"
    by (cases "parse_category_shop w s (get_attr l ''href'') (get_text l)")
  from shop_driver [of w s "get_attr l ''href''" "get_text l"] p
  obtain us where us: "driver s' = driver s @ map Navigate us" by auto
  show ?case
  proof (cases exc)
    case None
    from Cons [of s'] obtain vs where "driver (fst (shops_loop w s' links)) = driver s' @ map Navigate vs"
      by blast
    with us have "driver (fst (shops_loop w s' links)) = driver s @ map Navigate (us @ vs)" by simp
    with p None show ?thesis by (simp del: map_append) blast
  next
    case (Some e)
    with p us show ?thesis by simp blast
  qed
qed

lemma try_body_driver:
  "\<exists>urls. driver (try_body w s category) = driver s @ map Navigate urls"
proof -
  have nil: "driver s = driver s @ map Navigate []" by simp
  show ?thesis
  proof (cases "requests_get w (base_url s @ category)")
    case (Inl e)
    then have "driver (try_body w s category) = driver s" by (simp add: try_body_def Let_def)
    with nil show ?thesis by metis
  next
    case soup: (Inr soup)
    show ?thesis
    proof (cases "category_dropdown_links category soup")
      case (Inl e)
      with soup have "driver (try_body w s category) = driver s" by (simp add: try_body_def Let_def)
      with nil show ?thesis by metis
    next
      case (Inr links)
      let ?s1 = "s\<lparr>parsed_flyers := [], logged := logged s @ [WebsiteParsed (base_url s @ category)]\<rparr>"
      from shops_loop_driver [of w ?s1 links] obtain urls where
        u: "driver (fst (shops_loop w ?s1 links)) = driver s @ map Navigate urls" by auto
      have "driver (try_body w s category) = driver (fst (shops_loop w ?s1 links))"
        using soup Inr by (simp add: try_body_def Let_def split: prod.splits option.splits)
      with u show ?thesis by metis
    qed
  qed
qed

text \<open>
  Claim C7. In a run of the main program the browser driver is acquired once,
  when the parser is constructed, and quit once, as the last thing done with
  it, whatever happens in between: a failing request, a category page without
  the menu, or an exception while a shop is collected. Between the two the
  driver is only sent to pages.
\<close>

theorem driver_released_once:
  "(\<exists>urls. driver (run w url category) = [Acquire] @ map Navigate urls @ [Quit])
   \<and> count_list (driver (run w url category)) Acquire = 1
   \<and> count_list (driver (run w url category)) Quit = 1
   \<and> last (driver (run w url category)) = Quit"
proof -
  from try_body_driver [of w "FlyerParser_init url" category] obtain urls where
    "driver (try_body w (FlyerParser_init url) category) = [Acquire] @ map Navigate urls"
    by (auto simp: FlyerParser_init_def)
  then have d: "driver (run w url category) = [Acquire] @ map Navigate urls @ [Quit]"
    by (simp add: run_def parse_flyers_category_def Let_def)
  have "count_list (map Navigate urls) Acquire = 0" "count_list (map Navigate urls) Quit = 0"
    by (induction urls) simp_all
  then have c: "count_list (driver (run w url category)) Acquire = 1"
    "count_list (driver (run w url category)) Quit = 1"
    "last (driver (run w url category)) = Quit"
    by (simp_all add: d)
  from d have "\<exists>urls. driver (run w url category) = [Acquire] @ map Navigate urls @ [Quit]" ..
  with c show ?thesis by blast
qed

text \<open>
  Claim C10. For a flyer element with a title, a validity range that parses and
  an image whose \<open>src\<close> is absent or empty and whose \<open>data-src\<close> is absent, the
  record is appended, nothing is logged as a failure, and the thumbnail of the
  record is \<open>None\<close>.
\<close>

theorem missing_image_source:
  assumes "h2 el = Some t" and "img el = Some thumb"
    and "src thumb = None \<or> src thumb = Some []" and "data_src thumb = None"
    and "span el = Some r" and "parse_validity_range (strip r) = Inr (vf, vt)"
  shows "parse_flyer w s el name =
           s\<lparr>parsed_flyers := parsed_flyers s @
                [\<lparr>title = strip t, thumbnail = None, shop_name = name, valid_from = vf,
                  valid_to = vt, parsed_time = now w (clock_reads s)\<rparr>],
             clock_reads := Suc (clock_reads s)\<rparr>"
  using assms by (auto simp: parse_flyer_def flyer_fields_def py_or_def)

section \<open>Runs that differ in a shop without flyers\<close>

lemma agree_refl [simp]: "agree s s"
  by (simp add: agree_def)

lemma agree_trans: "agree s t \<Longrightarrow> agree t u \<Longrightarrow> agree s u"
  by (simp add: agree_def)

lemma parse_flyer_agree:
  assumes "agree s t" "now w' = now w"
  shows "agree (parse_flyer w s el name) (parse_flyer w' t el name)"
  using assms
  by (cases "flyer_fields el") (auto simp: parse_flyer_def agree_def errors_logged_def)

lemma flyers_loop_agree:
  assumes "now w' = now w"
  shows "agree s t \<Longrightarrow> agree (flyers_loop w name s flyers) (flyers_loop w' name t flyers)"
proof (induction flyers arbitrary: s t)
  case Nil
  then show ?case by simp
next
  case (Cons el flyers)
  from Cons.prems assms have "agree (parse_flyer w s el name) (parse_flyer w' t el name)"
    by (rule parse_flyer_agree)
  then show ?case using Cons.IH by simp
qed

lemma agree_driver [simp]: "agree (s\<lparr>driver := d\<rparr>) t \<longleftrightarrow> agree s t"
  "agree s (t\<lparr>driver := d\<rparr>) \<longleftrightarrow> agree s t"
  by (simp_all add: agree_def errors_logged_def)

lemma agree_logged_same:
  "agree s t \<Longrightarrow> agree (s\<lparr>logged := logged s @ [e]\<rparr>) (t\<lparr>logged := logged t @ [e]\<rparr>)"
  by (simp add: agree_def errors_logged_def)

lemma shop_agree:
  assumes "agree s t" "render w' = render w" "now w' = now w"
  shows "agree (fst (parse_category_shop w s shop name)) (fst (parse_category_shop w' t shop name))
       \<and> snd (parse_category_shop w s shop name) = snd (parse_category_shop w' t shop name)"
proof (cases shop)
  case None
  with assms(1) show ?thesis by (simp add: parse_category_shop_def agree_def errors_logged_def)
next
  case (Some path)
  from assms(1) have b: "base_url t = base_url s" by (simp add: agree_def)
  let ?u = "base_url s @ path"
  show ?thesis
  proof (cases "render w ?u")
    case (Inl e)
    with Some assms b show ?thesis
      by (simp add: parse_category_shop_def Let_def agree_def errors_logged_def)
  next
    case (Inr flyers)
    have "agree (flyers_loop w name (s\<lparr>driver := driver s @ [Navigate ?u]\<rparr>) flyers)
            (flyers_loop w' name (t\<lparr>driver := driver t @ [Navigate ?u]\<rparr>) flyers)"
      using assms(1,3) by (intro flyers_loop_agree) simp_all
    with Some Inr assms(2) b show ?thesis
      by (simp add: parse_category_shop_def Let_def agree_def errors_logged_def)
  qed
qed

lemma shops_loop_agree:
  assumes "render w' = render w" "now w' = now w"
  shows "agree s t \<Longrightarrow>
     agree (fst (shops_loop w s links)) (fst (shops_loop w' t links))
     \<and> snd (shops_loop w s links) = snd (shops_loop w' t links)"
proof (induction links arbitrary: s t)
  case Nil
  then show ?case by simp
next
  case (Cons l links)
  let ?p = "parse_category_shop w s (get_attr l ''href'') (get_text l)"
  let ?q = "parse_category_shop w' t (get_attr l ''href'') (get_text l)"
  from shop_agree [OF Cons.prems assms] have a: "agree (fst ?p) (fst ?q)" "snd ?p = snd ?q"
    by simp_all
  show ?case
  proof (cases "snd ?p")
    case None
    with a Cons.IH [of "fst ?p" "fst ?q"] show ?thesis
      by (cases ?p; cases ?q) simp
  next
    case (Some e)
    with a show ?thesis by (cases ?p; cases ?q) simp
  qed
qed

lemma shops_loop_append:
  "shops_loop w s (xs @ ys) =
     (case shops_loop w s xs of
        (s', None) \<Rightarrow> shops_loop w s' ys
      | (s', Some e) \<Rightarrow> (s', Some e))"
  by (induction xs arbitrary: s) (auto split: prod.splits option.splits)

lemma shop_timeout_agree:
  assumes "render w (base_url s @ path) = Inl TimeoutException"
  shows "agree (fst (parse_category_shop w s (Some path) name)) s
       \<and> snd (parse_category_shop w s (Some path) name) = None"
  by (simp add: shop_timeout [OF assms] agree_def errors_logged_def)

lemma shops_loop_skip:
  assumes l: "get_attr l ''href'' = Some path" "render w (base_url s @ path) = Inl TimeoutException"
    and w: "render w' = render w" "now w' = now w"
    and st: "agree s t"
  shows "agree (fst (shops_loop w s (xs @ l # ys))) (fst (shops_loop w' t (xs @ ys)))
       \<and> snd (shops_loop w s (xs @ l # ys)) = snd (shops_loop w' t (xs @ ys))"
proof -
  let ?a = "shops_loop w s xs" and ?b = "shops_loop w' t xs"
  from shops_loop_agree [OF w st, of xs] have ab: "agree (fst ?a) (fst ?b)" "snd ?a = snd ?b"
    by simp_all
  show ?thesis
  proof (cases "snd ?a")
    case (Some e)
    with ab show ?thesis by (cases ?a; cases ?b) (simp add: shops_loop_append)
  next
    case None
    let ?p = "parse_category_shop w (fst ?a) (Some path) (get_text l)"
    have "render w (base_url (fst ?a) @ path) = Inl TimeoutException" using l(2) by simp
    from shop_timeout_agree [OF this] have p: "agree (fst ?p) (fst ?a)" "snd ?p = None"
      by simp_all
    from p(1) ab(1) have "agree (fst ?p) (fst ?b)" by (rule agree_trans)
    from shops_loop_agree [OF w this, of ys]
    have "agree (fst (shops_loop w (fst ?p) ys)) (fst (shops_loop w' (fst ?b) ys))
        \<and> snd (shops_loop w (fst ?p) ys) = snd (shops_loop w' (fst ?b) ys)" .
    with None ab(2) p(2) l(1) show ?thesis
      by (cases ?a; cases ?b; cases ?p) (simp add: shops_loop_append)
  qed
qed

lemma try_body_links:
  assumes "requests_get w (base_url s @ category) = Inr soup"
    and "category_dropdown_links category soup = Inr links"
  shows "try_body w s category =
           (case shops_loop w (s\<lparr>parsed_flyers := [],
                   logged := logged s @ [WebsiteParsed (base_url s @ category)]\<rparr>) links of
              (s2, None) \<Rightarrow> s2
            | (s2, Some e) \<Rightarrow> s2\<lparr>logged := logged s2 @ [ErrorOccured e]\<rparr>)"
  using assms by (simp add: try_body_def Let_def)

lemma agree_finish:
  assumes "agree (fst p) (fst q)" "snd p = snd q"
  shows "agree (case p of (s2, None) \<Rightarrow> s2 | (s2, Some e) \<Rightarrow> s2\<lparr>logged := logged s2 @ [ErrorOccured e]\<rparr>)
           (case q of (s2, None) \<Rightarrow> s2 | (s2, Some e) \<Rightarrow> s2\<lparr>logged := logged s2 @ [ErrorOccured e]\<rparr>)"
  using assms by (cases p; cases q) (auto simp: agree_logged_same split: option.splits)

text \<open>
  Claim C5. When the wait for the flyer elements of a shop ends in a timeout,
  collection for the shop returns with the collection unchanged, one entry of
  level warning that names the shop is logged, and no exception leaves the
  method. The run over a menu that lists the shop ends with the same
  collection, and the same errors logged, as the run over the menu without it.
\<close>

theorem timed_out_shop:
  assumes "get_attr l ''href'' = Some path" and "render w (url @ path) = Inl TimeoutException"
    and "requests_get w (url @ category) = Inr soup"
    and "category_dropdown_links category soup = Inr (xs @ l # ys)"
    and "requests_get w' (url @ category) = Inr soup'"
    and "category_dropdown_links category soup' = Inr (xs @ ys)"
    and "render w' = render w" and "now w' = now w"
  shows "(base_url s = url \<longrightarrow>
            parse_category_shop w s (get_attr l ''href'') (get_text l)
              = (s\<lparr>driver := driver s @ [Navigate (url @ path)],
                    logged := logged s @ [FlyersNotFound (get_text l)]\<rparr>, None))
       \<and> level (FlyersNotFound (get_text l)) = WARNING
       \<and> parsed_flyers (run w url category) = parsed_flyers (run w' url category)
       \<and> errors_logged (run w url category) = errors_logged (run w' url category)"
proof -
  let ?i = "FlyerParser_init url"
  let ?s1 = "?i\<lparr>parsed_flyers := [], logged := logged ?i @ [WebsiteParsed (base_url ?i @ category)]\<rparr>"
  have b: "base_url ?i = url" "base_url ?s1 = url" by (simp_all add: FlyerParser_init_def)
  have "agree (fst (shops_loop w ?s1 (xs @ l # ys))) (fst (shops_loop w' ?s1 (xs @ ys)))
      \<and> snd (shops_loop w ?s1 (xs @ l # ys)) = snd (shops_loop w' ?s1 (xs @ ys))"
    using assms(1,2,7,8) b by (intro shops_loop_skip) simp_all
  then have "agree (try_body w ?i category) (try_body w' ?i category)"
    using assms(3-6) b by (simp add: try_body_links agree_finish)
  then have "agree (run w url category) (run w' url category)"
    by (simp add: run_def parse_flyers_category_def Let_def agree_def errors_logged_def)
  then show ?thesis
    using assms(1,2) by (auto simp: agree_def shop_timeout)
qed

section \<open>The start date of every record\<close>

lemma is_date_text_ymd:
  assumes "valid_date y m d"
  shows "is_date_text (year_month_day y m d)"
proof -
  let ?s = "year_month_day y m d"
  let ?rest = "CHR ''-'' # pad2 m @ CHR ''-'' # pad2 d"
  from valid_date_bounds [OF assms] have b: "y \<le> 9999" "m < 100" "d < 100" by simp_all
  from assms have y: "1 \<le> y" by (simp add: valid_date_def)
  have s: "?s = decimal y @ ?rest" by (simp add: year_month_day_def)
  have l: "length ?s = length (decimal y) + 6" by (simp add: s pad2_def)
  then have k: "length ?s - 6 = length (decimal y)" by simp
  have ty: "take (length ?s - 6) ?s = decimal y" unfolding k by (simp add: s)
  have dr: "drop (length ?s - 6) ?s = ?rest" unfolding k by (simp add: s)
  have "0 < length (decimal y)" using decimal_not_Nil [of y] by simp
  with l have 1: "6 < length ?s" by simp
  have 2: "length ?s \<le> 10" using l length_decimal [OF b(1)] by simp
  have 3: "list_all is_digit (decimal y)" by (rule digits_decimal)
  have "hd ?s = hd (decimal y)" by (simp add: s decimal_not_Nil)
  with hd_decimal [OF y] have 4: "hd ?s \<noteq> CHR ''0''" by simp
  have 5: "?rest ! 0 = CHR ''-''" "?rest ! 3 = CHR ''-''" by (simp_all add: pad2_def)
  have t: "take 2 (drop 1 ?rest) = pad2 m" "drop 4 ?rest = pad2 d" by (simp_all add: pad2_def)
  have 6: "list_all is_digit (pad2 m @ pad2 d)" by (simp add: pad2_def is_digit_digit_char)
  have 7: "valid_date (digits_value (decimal y)) (digits_value (pad2 m)) (digits_value (pad2 d))"
    using assms b by (simp add: digits_value_decimal digits_value_pad2)
  show ?thesis
    unfolding is_date_text_def Let_def ty dr t using 1 2 3 4 5 6 7 by blast
qed

lemma is_date_text_iso:
  assumes "is_date_text s" "length s = 10"
  shows "is_iso_date s"
  using assms by (simp add: is_date_text_def is_iso_date_def Let_def)

lemma strptime_strftime_date:
  assumes "strptime t = Inr dt"
  shows "is_date_text (strftime dt)"
proof -
  from strptime_sound [OF assms] have "valid_date (year dt) (month dt) (day dt)"
    by (simp add: date_token_def)
  then have "is_date_text (year_month_day (year dt) (month dt) (day dt))" by (rule is_date_text_ymd)
  then show ?thesis by (simp add: strftime_def year_month_day_def)
qed

lemma parse_range_valid_from:
  assumes "parse_validity_range r = Inr (vf, vt)"
  shows "is_date_text vf"
proof (cases "contains ''von'' r")
  case True
  with assms obtain t dt where "strptime t = Inr dt" "vf = strftime dt"
    by (auto simp: parse_validity_range_def split: sum.splits)
  then show ?thesis by (simp add: strptime_strftime_date)
next
  case False
  with assms obtain t dt where "strptime t = Inr dt" "vf = strftime dt"
    by (auto simp: parse_validity_range_def Let_def split: sum.splits)
  then show ?thesis by (simp add: strptime_strftime_date)
qed

lemma flyer_record_valid_from:
  "flyer_record el name time = Some r \<Longrightarrow> is_date_text (valid_from r)"
  by (auto simp: flyer_record_def flyer_fields_def split: option.splits sum.splits
      dest: parse_range_valid_from)

lemma parse_flyer_valid_from:
  "valid_from_ok s \<Longrightarrow> valid_from_ok (parse_flyer w s el name)"
  by (auto simp: parse_flyer_cases valid_from_ok_def split: option.splits
      dest: flyer_record_valid_from)

lemma flyers_loop_valid_from:
  "valid_from_ok s \<Longrightarrow> valid_from_ok (flyers_loop w name s flyers)"
  by (induction flyers arbitrary: s) (simp_all add: parse_flyer_valid_from)

lemma valid_from_ok_other [simp]:
  "valid_from_ok (s\<lparr>driver := d\<rparr>) = valid_from_ok s"
  "valid_from_ok (s\<lparr>logged := g\<rparr>) = valid_from_ok s"
  by (simp_all add: valid_from_ok_def)

lemma shop_valid_from:
  "valid_from_ok s \<Longrightarrow> valid_from_ok (fst (parse_category_shop w s shop name))"
  by (auto simp: parse_category_shop_def Let_def flyers_loop_valid_from
      split: option.splits sum.splits)

lemma shops_loop_valid_from:
  "valid_from_ok s \<Longrightarrow> valid_from_ok (fst (shops_loop w s links))"
proof (induction links arbitrary: s)
  case Nil
  then show ?case by simp
next
  case (Cons l links)
  let ?p = "parse_category_shop w s (get_attr l ''href'') (get_text l)"
  from Cons.prems have "valid_from_ok (fst ?p)" by (rule shop_valid_from)
  with Cons.IH [of "fst ?p"] show ?case
    by (cases ?p) (auto split: option.splits)
qed

lemma try_body_valid_from: "valid_from_ok (try_body w s category)"
proof -
  have e: "valid_from_ok (s\<lparr>parsed_flyers := []\<rparr>)" by (simp add: valid_from_ok_def)
  show ?thesis
  proof (cases "requests_get w (base_url s @ category)")
    case (Inl e)
    then show ?thesis by (simp add: try_body_def Let_def valid_from_ok_def)
  next
    case soup: (Inr soup)
    show ?thesis
    proof (cases "category_dropdown_links category soup")
      case (Inl e)
      with soup show ?thesis by (simp add: try_body_def Let_def valid_from_ok_def)
    next
      case (Inr links)
      let ?s1 = "s\<lparr>parsed_flyers := [], logged := logged s @ [WebsiteParsed (base_url s @ category)]\<rparr>"
      have "valid_from_ok ?s1" by (simp add: valid_from_ok_def)
      then have "valid_from_ok (fst (shops_loop w ?s1 links))" by (rule shops_loop_valid_from)
      then show ?thesis
        using soup Inr by (cases "shops_loop w ?s1 links") (auto simp: try_body_links split: option.splits)
    qed
  qed
qed

lemma category_valid_from: "valid_from_ok (parse_flyers_category w s category)"
  using try_body_valid_from [of w s category]
  by (simp add: parse_flyers_category_def Let_def valid_from_ok_def)

lemma valid_from_ok_iso:
  assumes "valid_from_ok s" "r \<in> set (parsed_flyers s)" "length (valid_from r) = 10"
  shows "is_iso_date (valid_from r)"
proof -
  from assms(1,2) have "is_date_text (valid_from r)"
    by (simp add: valid_from_ok_def list_all_iff)
  then show ?thesis using assms(3) by (rule is_date_text_iso)
qed

text \<open>
  Claim C8, as amended. Every record of the collection has a \<open>valid_from\<close> that
  is a calendar date written year-month-day: the year in decimal without
  leading zeros, the month and the day in two digits. This holds for the new
  parser, is kept by \<open>parse_flyer\<close> and \<open>parse_category_shop\<close>, which are the
  operations that append, and holds after \<open>parse_flyers_category\<close> and after a
  run. Such a text of ten characters, which is what a year from 1000 on gives,
  is a calendar date in the ISO form YYYY-MM-DD.
\<close>

theorem valid_from_invariant:
  "valid_from_ok (FlyerParser_init url)
   \<and> (valid_from_ok s \<longrightarrow> valid_from_ok (parse_flyer w s el name))
   \<and> (valid_from_ok s \<longrightarrow> valid_from_ok (fst (parse_category_shop w s shop name)))
   \<and> valid_from_ok (parse_flyers_category w s category)
   \<and> valid_from_ok (run w url category)
   \<and> (\<forall>r \<in> set (parsed_flyers (run w url category)).
         length (valid_from r) = 10 \<longrightarrow> is_iso_date (valid_from r))"
proof -
  have "valid_from_ok (FlyerParser_init url)"
    by (simp add: valid_from_ok_def FlyerParser_init_def)
  moreover have r: "valid_from_ok (run w url category)"
    by (simp add: run_def category_valid_from)
  moreover have "\<forall>r \<in> set (parsed_flyers (run w url category)).
         length (valid_from r) = 10 \<longrightarrow> is_iso_date (valid_from r)"
    using valid_from_ok_iso [OF r] by blast
  ultimately show ?thesis
    by (simp add: parse_flyer_valid_from shop_valid_from category_valid_from)
qed

section \<open>A run from end to end\<close>

lemma june_range:
  "parse_validity_range (strip ''01.06.2024 - 15.06.2024'') = Inr (''2024-06-01'', ''2024-06-15'')"
  by code_simp

lemma june_flyer_fields:
  assumes "h2 el = Some t" "img el = Some thumb" "span el = Some ''01.06.2024 - 15.06.2024''"
  shows "flyer_fields el
           = Inr (strip t, py_or (src thumb) (data_src thumb), ''2024-06-01'', ''2024-06-15'')"
  using assms june_range by (simp add: flyer_fields_def)

text \<open>
  Claim C9. When the menu of the category lists the shops \<open>/a/\<close>, named Alpha, and
  \<open>/b/\<close>, named Beta, the page of \<open>/a/\<close> shows one flyer whose validity text is
  \<open>01.06.2024 - 15.06.2024\<close> and the wait on the page of \<open>/b/\<close> times out, the run
  ends with exactly one record: shop Alpha, valid from 2024-06-01 to 2024-06-15,
  with the title and thumbnail of the flyer and, as parsed time, the one clock
  reading of the run.
\<close>

theorem end_to_end:
  assumes "requests_get w (url @ category) = Inr soup"
    and "category_dropdown_links category soup = Inr [l1, l2]"
    and "get_attr l1 ''href'' = Some ''/a/''" and "get_text l1 = ''Alpha''"
    and "get_attr l2 ''href'' = Some ''/b/''" and "get_text l2 = ''Beta''"
    and "render w (url @ ''/a/'') = Inr [el]"
    and "h2 el = Some t" and "img el = Some thumb"
    and "span el = Some ''01.06.2024 - 15.06.2024''"
    and "render w (url @ ''/b/'') = Inl TimeoutException"
  shows "parsed_flyers (run w url category) =
           [\<lparr>title = strip t, thumbnail = py_or (src thumb) (data_src thumb),
             shop_name = ''Alpha'', valid_from = ''2024-06-01'', valid_to = ''2024-06-15'',
             parsed_time = now w 0\<rparr>]"
proof -
  let ?i = "FlyerParser_init url"
  let ?s1 = "?i\<lparr>parsed_flyers := [], logged := logged ?i @ [WebsiteParsed (base_url ?i @ category)]\<rparr>"
  have b: "base_url ?i = url" "base_url ?s1 = url" "clock_reads ?s1 = 0" "parsed_flyers ?s1 = []"
    by (simp_all add: FlyerParser_init_def)
  let ?r = "\<lparr>title = strip t, thumbnail = py_or (src thumb) (data_src thumb),
             shop_name = ''Alpha'', valid_from = ''2024-06-01'', valid_to = ''2024-06-15'',
             parsed_time = now w 0\<rparr>"
  have f: "flyer_fields el
      = Inr (strip t, py_or (src thumb) (data_src thumb), ''2024-06-01'', ''2024-06-15'')"
    using assms(8-10) by (rule june_flyer_fields)
  obtain sa where a: "parse_category_shop w ?s1 (Some ''/a/'') ''Alpha'' = (sa, None)"
    and sa: "base_url sa = url" "parsed_flyers sa = [?r]"
    using assms(7) b f by (simp add: parse_category_shop_def Let_def parse_flyer_def)
  obtain sb where sb: "parse_category_shop w sa (Some ''/b/'') ''Beta'' = (sb, None)"
    "parsed_flyers sb = [?r]"
    using assms(11) sa by (simp add: parse_category_shop_def Let_def)
  have "shops_loop w ?s1 [l1, l2] = (sb, None)"
    using a sb assms(3-6) by simp
  then have "parsed_flyers (try_body w ?i category) = [?r]"
    using assms(1,2) b sb(2) by (simp add: try_body_links)
  then show ?thesis by (simp add: run_def parse_flyers_category_def Let_def)
qed

lemma demo_links:
  "category_dropdown_links ''/hypermarkte/'' demo_soup
     = Inr [Tag ''a'' [(''href'', ''/a/'')] [Text ''Alpha''],
            Tag ''a'' [(''href'', ''/b/'')] [Text ''Beta'']]"
  by (simp add: category_dropdown_links_def demo_soup_def)

lemma spaced_links:
  "category_dropdown_links ''/hypermarkte/'' spaced_soup
     = Inr [Tag ''a'' [(''href'', ''/a/'')] [Text '' Alpha '']]"
  by (simp add: category_dropdown_links_def spaced_soup_def)

theorem end_to_end_witness:
  "category_dropdown_links ''/hypermarkte/'' demo_soup
     = Inr [Tag ''a'' [(''href'', ''/a/'')] [Text ''Alpha''],
            Tag ''a'' [(''href'', ''/b/'')] [Text ''Beta'']]
   \<and> render (demo_world demo_soup) ''https://site/a/'' = Inr [demo_flyer]
   \<and> render (demo_world demo_soup) ''https://site/b/'' = Inl TimeoutException
   \<and> parsed_flyers (run (demo_world demo_soup) ''https://site'' ''/hypermarkte/'') =
        [\<lparr>title = ''Angebote der Woche'', thumbnail = Some ''https://site/a.jpg'',
          shop_name = ''Alpha'', valid_from = ''2024-06-01'', valid_to = ''2024-06-15'',
          parsed_time = ''2024-06-02 10:00:00''\<rparr>]"
proof -
  let ?w = "demo_world demo_soup"
  let ?l1 = "Tag ''a'' [(''href'', ''/a/'')] [Text ''Alpha'']"
  let ?l2 = "Tag ''a'' [(''href'', ''/b/'')] [Text ''Beta'']"
  let ?thumb = "\<lparr>src = Some ''https://site/a.jpg'', data_src = None\<rparr>"
  have 1: "requests_get ?w (''https://site'' @ ''/hypermarkte/'') = Inr demo_soup"
    by (simp add: demo_world_def)
  have 7: "render ?w (''https://site'' @ ''/a/'') = Inr [demo_flyer]"
    by (simp add: demo_world_def)
  have 11: "render ?w (''https://site'' @ ''/b/'') = Inl TimeoutException"
    by (simp add: demo_world_def)
  have st: "strip '' Angebote der Woche '' = ''Angebote der Woche''" by code_simp
  have "parsed_flyers (run ?w ''https://site'' ''/hypermarkte/'') =
      [\<lparr>title = strip '' Angebote der Woche '', thumbnail = py_or (src ?thumb) (data_src ?thumb),
        shop_name = ''Alpha'', valid_from = ''2024-06-01'', valid_to = ''2024-06-15'',
        parsed_time = now ?w 0\<rparr>]"
    by (rule end_to_end [OF 1 demo_links _ _ _ _ 7 _ _ _ 11, of "'' Angebote der Woche ''" ?thumb])
      (simp_all add: demo_flyer_def)
  then show ?thesis
    using demo_links 7 11 st by (simp add: py_or_def demo_world_def)
qed

section \<open>The shops of the menu\<close>

lemma navigations_append [simp]: "navigations (a @ b) = navigations a @ navigations b"
  by (simp add: navigations_def map_filter_def)

lemma shops_logged_append [simp]: "shops_logged (a @ b) = shops_logged a @ shops_logged b"
  by (simp add: shops_logged_def map_filter_def)

lemma navigations_simps [simp]:
  "navigations [] = []" "navigations [Navigate u] = [u]" "navigations [Quit] = []"
  "navigations [Acquire] = []"
  by (simp_all add: navigations_def map_filter_def)

lemma shops_logged_simps [simp]:
  "shops_logged [] = []" "shops_logged [FlyersNotFound n] = [n]" "shops_logged [ShopDone n k] = [n]"
  "shops_logged [WebsiteParsed u] = []" "shops_logged [ParsingCompleted k] = []"
  "shops_logged [ErrorOccured e] = []"
  by (simp_all add: shops_logged_def map_filter_def)

lemma shop_observed:
  assumes "\<forall>e. render w (base_url s @ path) = Inl e \<longrightarrow> e = TimeoutException"
  shows "snd (parse_category_shop w s (Some path) name) = None
       \<and> navigations (driver (fst (parse_category_shop w s (Some path) name)))
           = navigations (driver s) @ [base_url s @ path]
       \<and> shops_logged (logged (fst (parse_category_shop w s (Some path) name)))
           = shops_logged (logged s) @ [name]"
proof (cases "render w (base_url s @ path)")
  case (Inl e)
  with assms have "render w (base_url s @ path) = Inl TimeoutException" by simp
  then show ?thesis by (simp add: shop_timeout)
next
  case (Inr flyers)
  then show ?thesis by (simp add: shop_found Let_def)
qed

lemma shops_loop_observed:
  assumes "\<forall>l \<in> set links. \<exists>path. get_attr l ''href'' = Some path
             \<and> (\<forall>e. render w (base_url s @ path) = Inl e \<longrightarrow> e = TimeoutException)"
  shows "snd (shops_loop w s links) = None
       \<and> map Some (navigations (driver (fst (shops_loop w s links))))
           = map Some (navigations (driver s))
             @ map (\<lambda>l. map_option ((@) (base_url s)) (get_attr l ''href'')) links
       \<and> shops_logged (logged (fst (shops_loop w s links)))
           = shops_logged (logged s) @ map get_text links"
  using assms
proof (induction links arbitrary: s)
  case Nil
  then show ?case by simp
next
  case (Cons l links)
  from Cons.prems obtain path where l: "get_attr l ''href'' = Some path"
    and r: "\<forall>e. render w (base_url s @ path) = Inl e \<longrightarrow> e = TimeoutException"
    by auto
  let ?p = "parse_category_shop w s (Some path) (get_text l)"
  from shop_observed [OF r, of "get_text l"] have p: "snd ?p = None"
    "navigations (driver (fst ?p)) = navigations (driver s) @ [base_url s @ path]"
    "shops_logged (logged (fst ?p)) = shops_logged (logged s) @ [get_text l]"
    by simp_all
  have "\<forall>l \<in> set links. \<exists>path. get_attr l ''href'' = Some path
          \<and> (\<forall>e. render w (base_url (fst ?p) @ path) = Inl e \<longrightarrow> e = TimeoutException)"
    using Cons.prems by simp
  from Cons.IH [OF this] have ih: "snd (shops_loop w (fst ?p) links) = None"
    "map Some (navigations (driver (fst (shops_loop w (fst ?p) links))))
       = map Some (navigations (driver (fst ?p)))
         @ map (\<lambda>l. map_option ((@) (base_url s)) (get_attr l ''href'')) links"
    "shops_logged (logged (fst (shops_loop w (fst ?p) links)))
       = shops_logged (logged (fst ?p)) @ map get_text links"
    by simp_all
  have "shops_loop w s (l # links) = shops_loop w (fst ?p) links"
    using l p(1) by (cases ?p) simp
  with ih p l show ?case by simp
qed

lemma parse_flyer_shop_names:
  "shop_name ` set (parsed_flyers (parse_flyer w s el name))
     \<subseteq> insert name (shop_name ` set (parsed_flyers s))"
  by (cases "flyer_fields el") (auto simp: parse_flyer_def)

lemma flyers_loop_shop_names:
  "shop_name ` set (parsed_flyers (flyers_loop w name s flyers))
     \<subseteq> insert name (shop_name ` set (parsed_flyers s))"
proof (induction flyers arbitrary: s)
  case Nil
  then show ?case by auto
next
  case (Cons el flyers)
  from Cons [of "parse_flyer w s el name"] parse_flyer_shop_names [of w s el name]
  show ?case by auto
qed

lemma shop_shop_names:
  "shop_name ` set (parsed_flyers (fst (parse_category_shop w s shop name)))
     \<subseteq> insert name (shop_name ` set (parsed_flyers s))"
proof (cases shop)
  case None
  then show ?thesis by (auto simp: parse_category_shop_def)
next
  case (Some path)
  show ?thesis
  proof (cases "render w (base_url s @ path)")
    case (Inl e)
    with Some show ?thesis by (auto simp: parse_category_shop_def Let_def)
  next
    case (Inr flyers)
    with Some flyers_loop_shop_names [of w name "s\<lparr>driver := driver s @ [Navigate (base_url s @ path)]\<rparr>" flyers]
    show ?thesis by (simp add: shop_found Let_def)
  qed
qed

lemma shops_loop_shop_names:
  "shop_name ` set (parsed_flyers (fst (shops_loop w s links)))
     \<subseteq> get_text ` set links \<union> shop_name ` set (parsed_flyers s)"
proof (induction links arbitrary: s)
  case Nil
  then show ?case by simp
next
  case (Cons l links)
  let ?p = "parse_category_shop w s (get_attr l ''href'') (get_text l)"
  have a: "shop_name ` set (parsed_flyers (fst ?p))
      \<subseteq> insert (get_text l) (shop_name ` set (parsed_flyers s))"
    by (rule shop_shop_names)
  show ?case
  proof (cases "snd ?p")
    case None
    then have "shops_loop w s (l # links) = shops_loop w (fst ?p) links"
      by (cases ?p) simp
    with Cons [of "fst ?p"] a show ?thesis by auto
  next
    case (Some e)
    then have "shops_loop w s (l # links) = (fst ?p, Some e)"
      by (cases ?p) simp
    with a show ?thesis by auto
  qed
qed

lemma shops_of_links:
  assumes "requests_get w (url @ category) = Inr soup"
    and "category_dropdown_links category soup = Inr links"
    and "\<forall>l \<in> set links. \<exists>path. get_attr l ''href'' = Some path
           \<and> (\<forall>e. render w (url @ path) = Inl e \<longrightarrow> e = TimeoutException)"
  shows "map Some (navigations (driver (run w url category)))
           = map (\<lambda>l. map_option ((@) url) (get_attr l ''href'')) links
       \<and> shops_logged (logged (run w url category)) = map get_text links
       \<and> shop_name ` set (parsed_flyers (run w url category)) \<subseteq> get_text ` set links"
proof -
  let ?i = "FlyerParser_init url"
  let ?s1 = "?i\<lparr>parsed_flyers := [], logged := logged ?i @ [WebsiteParsed (base_url ?i @ category)]\<rparr>"
  have b: "base_url ?i = url" "base_url ?s1 = url" "parsed_flyers ?s1 = []"
    "navigations (driver ?s1) = []" "shops_logged (logged ?s1) = []"
    by (simp_all add: FlyerParser_init_def)
  have "\<forall>l \<in> set links. \<exists>path. get_attr l ''href'' = Some path
          \<and> (\<forall>e. render w (base_url ?s1 @ path) = Inl e \<longrightarrow> e = TimeoutException)"
    using assms(3) b(2) by simp
  from shops_loop_observed [OF this] b have o: "snd (shops_loop w ?s1 links) = None"
    "map Some (navigations (driver (fst (shops_loop w ?s1 links))))
       = map (\<lambda>l. map_option ((@) url) (get_attr l ''href'')) links"
    "shops_logged (logged (fst (shops_loop w ?s1 links))) = map get_text links"
    by simp_all
  have n: "shop_name ` set (parsed_flyers (fst (shops_loop w ?s1 links))) \<subseteq> get_text ` set links"
    using shops_loop_shop_names [of w ?s1 links] b(3) by simp
  have t: "try_body w ?i category = fst (shops_loop w ?s1 links)"
    using assms(1,2) b(1) o(1) by (cases "shops_loop w ?s1 links") (simp add: try_body_links)
  show ?thesis
    using o(2,3) n by (simp add: run_def parse_flyers_category_def Let_def t)
qed

section \<open>The menu in the page\<close>

lemma find_anchor_None_iff:
  "find_anchor category ns = None \<longleftrightarrow> \<not> has_category_anchor category ns"
  by (induction category ns rule: find_anchor.induct) (auto split: option.splits)

lemma find_anchor_here:
  "is_category_anchor category a \<Longrightarrow> find_anchor category (a # rest) = Some rest"
  by (cases a) simp_all

lemma find_anchor_skip:
  "\<not> has_category_anchor category before \<Longrightarrow>
     find_anchor category (before @ rest) = find_anchor category rest"
proof (induction before)
  case Nil
  then show ?case by simp
next
  case (Cons nd before)
  show ?case
  proof (cases nd)
    case (Text t)
    with Cons show ?thesis by simp
  next
    case (Tag name attrs children)
    with Cons.prems have n: "\<not> is_category_anchor category (Tag name attrs children)"
      "\<not> has_category_anchor category children" "\<not> has_category_anchor category before"
      by simp_all
    from n(2) have "find_anchor category children = None" by (simp add: find_anchor_None_iff)
    with n(1) Cons.IH [OF n(3)] Tag show ?thesis by auto
  qed
qed

lemma find_next_sibling_gap:
  "list_all is_text gap \<Longrightarrow>
     find_next_sibling (gap @ Tag name attrs children # after) = Some (Tag name attrs children)"
proof (induction gap)
  case Nil
  then show ?case by simp
next
  case (Cons nd gap)
  then show ?case by (cases nd) simp_all
qed

lemma follows_anchor_found:
  "follows_anchor category soup c \<Longrightarrow>
     \<exists>siblings name attrs children. find_anchor category soup = Some siblings
        \<and> find_next_sibling siblings = Some c \<and> c = Tag name attrs children"
proof (induction rule: follows_anchor.induct)
  case (here category before a gap name attrs children after)
  have "find_anchor category (before @ a # gap @ Tag name attrs children # after)
      = Some (gap @ Tag name attrs children # after)"
    using here(1,2) by (simp add: find_anchor_skip find_anchor_here)
  moreover have "find_next_sibling (gap @ Tag name attrs children # after)
      = Some (Tag name attrs children)"
    using here(3) by (rule find_next_sibling_gap)
  ultimately show ?case by blast
next
  case (inside category before name attrs children c after)
  from inside.IH obtain siblings where f: "find_anchor category children = Some siblings"
    and r: "\<exists>name attrs children. find_next_sibling siblings = Some c \<and> c = Tag name attrs children"
    by blast
  have "find_anchor category (before @ Tag name attrs children # after) = Some siblings"
    using inside(1,2) f by (auto simp: find_anchor_skip)
  with r show ?case by blast
qed

lemma select_li_a_descendants:
  "select_li_a parent ns
     = map snd (filter (\<lambda>(p, nd). p = ''li'' \<and> tag_name nd = ''a'') (descendants parent ns))"
  by (induction parent ns rule: select_li_a.induct) auto

lemma follows_anchor_links:
  assumes "follows_anchor category soup container"
  shows "category_dropdown_links category soup = Inr (li_anchors container)"
proof -
  from follows_anchor_found [OF assms] obtain siblings name attrs children where
    "find_anchor category soup = Some siblings" "find_next_sibling siblings = Some container"
    "container = Tag name attrs children"
    by blast
  then show ?thesis
    by (simp add: category_dropdown_links_def li_anchors_def select_li_a_descendants)
qed

text \<open>
  Claim C6, as amended. The shops that a run collects are the anchors named
  \<open>a\<close> with a parent named \<open>li\<close> in the tag that follows the category anchor,
  in their order: in a run in which every such anchor has a link target and
  no page fails other than by a timeout, the driver is sent to the base URL
  followed by the link target of each anchor, and the shop name logged for
  each is the text of the anchor as \<open>get_text\<close> returns it, with its
  surrounding whitespace. The shop name of every record is such a text.
\<close>

theorem discovered_shops:
  assumes "requests_get w (url @ category) = Inr soup"
    and "follows_anchor category soup container"
    and "\<forall>l \<in> set (li_anchors container). \<exists>path. get_attr l ''href'' = Some path
           \<and> (\<forall>e. render w (url @ path) = Inl e \<longrightarrow> e = TimeoutException)"
  shows "map Some (navigations (driver (run w url category)))
           = map (\<lambda>l. map_option ((@) url) (get_attr l ''href'')) (li_anchors container)
       \<and> shops_logged (logged (run w url category)) = map get_text (li_anchors container)
       \<and> shop_name ` set (parsed_flyers (run w url category))
           \<subseteq> get_text ` set (li_anchors container)"
  using assms(1) follows_anchor_links [OF assms(2)] assms(3) by (rule shops_of_links)

lemma alpha_links:
  "category_dropdown_links ''/hypermarkte/'' alpha_soup
     = Inr [Tag ''a'' [(''href'', ''/a/'')] [Text ''Alpha'']]"
  by (simp add: category_dropdown_links_def alpha_soup_def)

lemma demo_title: "strip '' Angebote der Woche '' = ''Angebote der Woche''"
  by code_simp

lemma demo_flyer_fields:
  "flyer_fields demo_flyer
     = Inr (''Angebote der Woche'', Some ''https://site/a.jpg'', ''2024-06-01'', ''2024-06-15'')"
  using june_flyer_fields [of demo_flyer "'' Angebote der Woche ''"
      "\<lparr>src = Some ''https://site/a.jpg'', data_src = None\<rparr>"]
  by (simp add: demo_flyer_def demo_title py_or_def)

lemma one_shop_run:
  assumes "requests_get w (url @ category) = Inr soup"
    and "category_dropdown_links category soup = Inr [l]"
    and "get_attr l ''href'' = Some path"
    and "render w (url @ path) = Inr [el]"
    and "flyer_fields el = Inr (t, th, vf, vt)"
  shows "parsed_flyers (run w url category) =
           [\<lparr>title = t, thumbnail = th, shop_name = get_text l, valid_from = vf, valid_to = vt,
             parsed_time = now w 0\<rparr>]"
proof -
  let ?i = "FlyerParser_init url"
  let ?s1 = "?i\<lparr>parsed_flyers := [], logged := logged ?i @ [WebsiteParsed (base_url ?i @ category)]\<rparr>"
  let ?r = "\<lparr>title = t, thumbnail = th, shop_name = get_text l, valid_from = vf, valid_to = vt,
             parsed_time = now w 0\<rparr>"
  have b: "base_url ?i = url" "base_url ?s1 = url" "clock_reads ?s1 = 0" "parsed_flyers ?s1 = []"
    by (simp_all add: FlyerParser_init_def)
  obtain sa where a: "parse_category_shop w ?s1 (Some path) (get_text l) = (sa, None)"
    and sa: "parsed_flyers sa = [?r]"
    using assms(4,5) b by (simp add: parse_category_shop_def Let_def parse_flyer_def)
  have "shops_loop w ?s1 [l] = (sa, None)"
    using a assms(3) by simp
  then have "parsed_flyers (try_body w ?i category) = [?r]"
    using assms(1,2) b sa by (simp add: try_body_links)
  then show ?thesis by (simp add: run_def parse_flyers_category_def Let_def)
qed

theorem discovered_shops_witness:
  "follows_anchor ''/hypermarkte/'' spaced_soup
     (Tag ''ul'' [] [Tag ''li'' [] [Tag ''a'' [(''href'', ''/a/'')] [Text '' Alpha '']]])
   \<and> li_anchors (Tag ''ul'' [] [Tag ''li'' [] [Tag ''a'' [(''href'', ''/a/'')] [Text '' Alpha '']]])
       = [Tag ''a'' [(''href'', ''/a/'')] [Text '' Alpha '']]
   \<and> render (demo_world spaced_soup) (''https://site'' @ ''/a/'') = Inr [demo_flyer]
   \<and> navigations (driver (run (demo_world spaced_soup) ''https://site'' ''/hypermarkte/''))
       = [''https://site/a/'']
   \<and> shops_logged (logged (run (demo_world spaced_soup) ''https://site'' ''/hypermarkte/''))
       = ['' Alpha '']"
proof -
  let ?w = "demo_world spaced_soup"
  let ?l = "Tag ''a'' [(''href'', ''/a/'')] [Text '' Alpha '']"
  let ?ul = "Tag ''ul'' [] [Tag ''li'' [] [?l]]"
  have 1: "requests_get ?w (''https://site'' @ ''/hypermarkte/'') = Inr spaced_soup"
    by (simp add: demo_world_def)
  have "follows_anchor ''/hypermarkte/''
      ([] @ Tag ''a'' [(''href'', ''/hypermarkte/'')] [Text ''Hypermarkte''] # [] @ ?ul # []) ?ul"
    by (rule follows_anchor.here) simp_all
  then have 2: "follows_anchor ''/hypermarkte/'' spaced_soup ?ul"
    by (simp add: spaced_soup_def)
  have a: "li_anchors ?ul = [?l]" by (simp add: li_anchors_def)
  have r: "render ?w (''https://site'' @ ''/a/'') = Inr [demo_flyer]"
    by (simp add: demo_world_def)
  have 3: "\<forall>l \<in> set (li_anchors ?ul). \<exists>path. get_attr l ''href'' = Some path
           \<and> (\<forall>e. render ?w (''https://site'' @ path) = Inl e \<longrightarrow> e = TimeoutException)"
    by (simp add: a demo_world_def)
  from discovered_shops [OF 1 2 3]
  have "map Some (navigations (driver (run ?w ''https://site'' ''/hypermarkte/'')))
          = map Some [''https://site/a/'']"
    and g: "shops_logged (logged (run ?w ''https://site'' ''/hypermarkte/'')) = ['' Alpha '']"
    by (simp_all add: a)
  then have "navigations (driver (run ?w ''https://site'' ''/hypermarkte/'')) = [''https://site/a/'']"
    by (simp only: inj_map_eq_map [OF inj_Some])
  with g 2 a r show ?thesis by blast
qed

text \<open>
  Claim C6, as stated, fails: for an anchor whose text is \<open>Alpha\<close> between two
  spaces, the shop name of the record is the text with its spaces, not the
  trimmed text.
\<close>

theorem shop_name_counterexample:
  "category_dropdown_links ''/hypermarkte/'' spaced_soup
     = Inr [Tag ''a'' [(''href'', ''/a/'')] [Text '' Alpha '']]
   \<and> map shop_name (parsed_flyers (run (demo_world spaced_soup) ''https://site'' ''/hypermarkte/''))
       = ['' Alpha '']
   \<and> strip '' Alpha '' = ''Alpha''"
proof -
  let ?w = "demo_world spaced_soup"
  let ?l = "Tag ''a'' [(''href'', ''/a/'')] [Text '' Alpha '']"
  have 1: "requests_get ?w (''https://site'' @ ''/hypermarkte/'') = Inr spaced_soup"
    by (simp add: demo_world_def)
  have 4: "render ?w (''https://site'' @ ''/a/'') = Inr [demo_flyer]"
    by (simp add: demo_world_def)
  have "get_attr ?l ''href'' = Some ''/a/''" by simp
  from one_shop_run [OF 1 spaced_links this 4 demo_flyer_fields]
  have "map shop_name (parsed_flyers (run ?w ''https://site'' ''/hypermarkte/'')) = ['' Alpha '']"
    by simp
  moreover have "strip '' Alpha '' = ''Alpha''" by code_simp
  ultimately show ?thesis using spaced_links by simp
qed

section \<open>Concrete runs of the operations\<close>

theorem failed_flyers_dropped_witness:
  "render mixed_world (base_url (FlyerParser_init ''https://site'') @ ''/a/'')
     = Inr [demo_flyer\<lparr>img := None\<rparr>, demo_flyer]
   \<and> processing_fails (demo_flyer\<lparr>img := None\<rparr>) \<and> \<not> processing_fails demo_flyer
   \<and> parsed_flyers (fst (parse_category_shop mixed_world (FlyerParser_init ''https://site'')
         (Some ''/a/'') ''Alpha''))
       = [\<lparr>title = ''Angebote der Woche'', thumbnail = Some ''https://site/a.jpg'',
           shop_name = ''Alpha'', valid_from = ''2024-06-01'', valid_to = ''2024-06-15'',
           parsed_time = ''2024-06-02 10:00:00''\<rparr>]
   \<and> snd (parse_category_shop mixed_world (FlyerParser_init ''https://site'') (Some ''/a/'') ''Alpha'')
       = None"
proof -
  let ?s = "FlyerParser_init ''https://site''"
  let ?r = "\<lparr>title = ''Angebote der Woche'', thumbnail = Some ''https://site/a.jpg'',
           shop_name = ''Alpha'', valid_from = ''2024-06-01'', valid_to = ''2024-06-15'',
           parsed_time = ''2024-06-02 10:00:00''\<rparr>"
  have h: "render mixed_world (base_url ?s @ ''/a/'') = Inr [demo_flyer\<lparr>img := None\<rparr>, demo_flyer]"
    by (simp add: mixed_world_def)
  have bad: "processing_fails (demo_flyer\<lparr>img := None\<rparr>)"
    by (simp add: processing_fails_def)
  have good: "\<not> processing_fails demo_flyer"
    using flyer_fields_fails_iff [of demo_flyer] by (simp add: demo_flyer_fields)
  have rec: "flyer_record demo_flyer ''Alpha'' (now mixed_world 0) = Some ?r"
    by (simp add: flyer_record_def demo_flyer_fields mixed_world_def)
  from failed_flyers_dropped [OF h, of "''Alpha''"] bad good rec
  have "map Some (parsed_flyers (fst (parse_category_shop mixed_world ?s (Some ''/a/'') ''Alpha'')))
          = map Some [?r]"
    and n: "snd (parse_category_shop mixed_world ?s (Some ''/a/'') ''Alpha'') = None"
    by (simp_all add: FlyerParser_init_def)
  then have "parsed_flyers (fst (parse_category_shop mixed_world ?s (Some ''/a/'') ''Alpha'')) = [?r]"
    by (simp only: inj_map_eq_map [OF inj_Some])
  with h bad good n show ?thesis by blast
qed

theorem timed_out_shop_witness:
  "get_attr (Tag ''a'' [(''href'', ''/b/'')] [Text ''Beta'']) ''href'' = Some ''/b/''
   \<and> render (demo_world demo_soup) (''https://site'' @ ''/b/'') = Inl TimeoutException
   \<and> category_dropdown_links ''/hypermarkte/'' demo_soup
       = Inr ([Tag ''a'' [(''href'', ''/a/'')] [Text ''Alpha'']]
              @ Tag ''a'' [(''href'', ''/b/'')] [Text ''Beta''] # [])
   \<and> category_dropdown_links ''/hypermarkte/'' alpha_soup
       = Inr ([Tag ''a'' [(''href'', ''/a/'')] [Text ''Alpha'']] @ [])
   \<and> parse_category_shop (demo_world demo_soup) (FlyerParser_init ''https://site'')
         (Some ''/b/'') ''Beta''
       = ((FlyerParser_init ''https://site'')
            \<lparr>driver := [Acquire, Navigate ''https://site/b/''],
             logged := [FlyersNotFound ''Beta'']\<rparr>, None)
   \<and> parsed_flyers (run (demo_world demo_soup) ''https://site'' ''/hypermarkte/'')
       = parsed_flyers (run (demo_world alpha_soup) ''https://site'' ''/hypermarkte/'')
   \<and> errors_logged (run (demo_world demo_soup) ''https://site'' ''/hypermarkte/'')
       = errors_logged (run (demo_world alpha_soup) ''https://site'' ''/hypermarkte/'')"
proof -
  let ?w = "demo_world demo_soup" and ?w' = "demo_world alpha_soup"
  let ?a = "Tag ''a'' [(''href'', ''/a/'')] [Text ''Alpha'']"
  let ?b = "Tag ''a'' [(''href'', ''/b/'')] [Text ''Beta'']"
  have 1: "get_attr ?b ''href'' = Some ''/b/''" by simp
  have 2: "render ?w (''https://site'' @ ''/b/'') = Inl TimeoutException"
    by (simp add: demo_world_def)
  have 3: "requests_get ?w (''https://site'' @ ''/hypermarkte/'') = Inr demo_soup"
    by (simp add: demo_world_def)
  have 4: "category_dropdown_links ''/hypermarkte/'' demo_soup = Inr ([?a] @ ?b # [])"
    using demo_links by simp
  have 5: "requests_get ?w' (''https://site'' @ ''/hypermarkte/'') = Inr alpha_soup"
    by (simp add: demo_world_def)
  have 6: "category_dropdown_links ''/hypermarkte/'' alpha_soup = Inr ([?a] @ [])"
    using alpha_links by simp
  have 7: "render ?w' = render ?w" and 8: "now ?w' = now ?w"
    by (simp_all add: demo_world_def)
  have 9: "base_url (FlyerParser_init ''https://site'') = ''https://site''"
    by (simp add: FlyerParser_init_def)
  from timed_out_shop [OF 1 2 3 4 5 6 7 8, of "FlyerParser_init ''https://site''"] 9
  have "parse_category_shop ?w (FlyerParser_init ''https://site'') (Some ''/b/'') ''Beta''
       = ((FlyerParser_init ''https://site'')
            \<lparr>driver := [Acquire, Navigate ''https://site/b/''],
             logged := [FlyersNotFound ''Beta'']\<rparr>, None)"
    and "parsed_flyers (run ?w ''https://site'' ''/hypermarkte/'')
       = parsed_flyers (run ?w' ''https://site'' ''/hypermarkte/'')"
    and "errors_logged (run ?w ''https://site'' ''/hypermarkte/'')
       = errors_logged (run ?w' ''https://site'' ''/hypermarkte/'')"
    by (simp_all add: FlyerParser_init_def)
  with 1 2 4 6 show ?thesis by blast
qed

theorem valid_from_invariant_witness:
  "valid_from_ok (FlyerParser_init ''https://site'')
   \<and> valid_from_ok (parse_flyer (demo_world demo_soup) (FlyerParser_init ''https://site'')
        demo_flyer ''Alpha'')
   \<and> map valid_from (parsed_flyers (parse_flyer (demo_world demo_soup)
        (FlyerParser_init ''https://site'') demo_flyer ''Alpha'')) = [''2024-06-01'']
   \<and> valid_from_ok (fst (parse_category_shop mixed_world (FlyerParser_init ''https://site'')
        (Some ''/a/'') ''Alpha''))"
proof -
  let ?s = "FlyerParser_init ''https://site''"
  have a: "valid_from_ok ?s" by (simp add: valid_from_ok_def FlyerParser_init_def)
  have b: "valid_from_ok (parse_flyer (demo_world demo_soup) ?s demo_flyer ''Alpha'')"
    using valid_from_invariant [of "''https://site''" ?s "demo_world demo_soup" demo_flyer "''Alpha''"] a
    by blast
  have c: "valid_from_ok (fst (parse_category_shop mixed_world ?s (Some ''/a/'') ''Alpha''))"
    using valid_from_invariant [of "''https://site''" ?s mixed_world demo_flyer "''Alpha''"
        "Some ''/a/''"] a
    by blast
  have d: "map valid_from (parsed_flyers (parse_flyer (demo_world demo_soup) ?s demo_flyer ''Alpha''))
      = [''2024-06-01'']"
    by (simp add: parse_flyer_def demo_flyer_fields FlyerParser_init_def)
  from a b c d show ?thesis by blast
qed

text \<open>
  Claim C8, as stated, fails for a year below 1000: for a flyer whose validity
  text is \<open>01.06.0999 - 15.06.0999\<close> the record appended has the \<open>valid_from\<close>
  \<open>999-06-01\<close>, which is not in the form YYYY-MM-DD.
\<close>

theorem valid_from_counterexample:
  "map valid_from (parsed_flyers (parse_flyer mixed_world (FlyerParser_init ''https://site'')
      (demo_flyer\<lparr>span := Some ''01.06.0999 - 15.06.0999''\<rparr>) ''Alpha'')) = [''999-06-01'']
   \<and> \<not> is_iso_date ''999-06-01''"
proof -
  have p: "parse_validity_range (strip ''01.06.0999 - 15.06.0999'')
      = Inr (''999-06-01'', ''999-06-15'')"
    by code_simp
  have "\<not> is_iso_date ''999-06-01''" by (simp add: is_iso_date_def)
  then show ?thesis
    by (simp add: parse_flyer_def flyer_fields_def demo_flyer_def p FlyerParser_init_def)
qed

theorem missing_image_source_witness:
  "h2 (demo_flyer\<lparr>img := Some \<lparr>src = Some [], data_src = None\<rparr>\<rparr>) = Some '' Angebote der Woche ''
   \<and> img (demo_flyer\<lparr>img := Some \<lparr>src = Some [], data_src = None\<rparr>\<rparr>)
       = Some \<lparr>src = Some [], data_src = None\<rparr>
   \<and> span (demo_flyer\<lparr>img := Some \<lparr>src = Some [], data_src = None\<rparr>\<rparr>)
       = Some ''01.06.2024 - 15.06.2024''
   \<and> parse_validity_range (strip ''01.06.2024 - 15.06.2024'') = Inr (''2024-06-01'', ''2024-06-15'')
   \<and> parse_flyer mixed_world (FlyerParser_init ''https://site'')
         (demo_flyer\<lparr>img := Some \<lparr>src = Some [], data_src = None\<rparr>\<rparr>) ''Alpha''
       = (FlyerParser_init ''https://site'')
           \<lparr>parsed_flyers :=
              [\<lparr>title = ''Angebote der Woche'', thumbnail = None, shop_name = ''Alpha'',
                valid_from = ''2024-06-01'', valid_to = ''2024-06-15'',
                parsed_time = ''2024-06-02 10:00:00''\<rparr>],
            clock_reads := 1\<rparr>"
proof -
  let ?thumb = "\<lparr>src = Some [], data_src = None\<rparr>"
  let ?el = "demo_flyer\<lparr>img := Some ?thumb\<rparr>"
  have 1: "h2 ?el = Some '' Angebote der Woche ''" by (simp add: demo_flyer_def)
  have 2: "img ?el = Some ?thumb" by simp
  have 3: "src ?thumb = None \<or> src ?thumb = Some []" by simp
  have 4: "data_src ?thumb = None" by simp
  have 5: "span ?el = Some ''01.06.2024 - 15.06.2024''" by (simp add: demo_flyer_def)
  from missing_image_source [OF 1 2 3 4 5 june_range, of mixed_world
      "FlyerParser_init ''https://site''" "''Alpha''"]
  have "parse_flyer mixed_world (FlyerParser_init ''https://site'') ?el ''Alpha''
       = (FlyerParser_init ''https://site'')
           \<lparr>parsed_flyers :=
              [\<lparr>title = ''Angebote der Woche'', thumbnail = None, shop_name = ''Alpha'',
                valid_from = ''2024-06-01'', valid_to = ''2024-06-15'',
                parsed_time = ''2024-06-02 10:00:00''\<rparr>],
            clock_reads := 1\<rparr>"
    by (simp add: demo_title mixed_world_def FlyerParser_init_def)
  with 1 2 5 june_range show ?thesis by blast
qed

end
